theory Spec2Isabelle
  imports Main "HOL-Library.Word" "HOL-Library.Monad_Syntax"
begin

unbundle bit_operations_syntax

section \<open>The node store\<close>

text \<open>
  A node pointer (\<^verbatim>\<open>RBNode *\<close>) and the packed word \<^verbatim>\<open>__rb_parent_color\<close>
  (\<^verbatim>\<open>unsigned long\<close>) are 64-bit words; the null pointer is 0.
  A node has the three linkage fields of the source. The state is the store of all
  nodes together with the one field \<^verbatim>\<open>rb_node\<close> of the \<^verbatim>\<open>RBTree\<close> the functions
  are called on.
\<close>

type_synonym addr = "64 word"

record RBNode =
  rb_parent_color :: "64 word"
  rb_right :: addr
  rb_left :: addr

record state =
  heap :: "addr \<Rightarrow> RBNode"
  rb_node :: addr

definition RB_RED :: "64 word" where
  "RB_RED = 0"

definition RB_BLACK :: "64 word" where
  "RB_BLACK = 1"

text \<open>
  Reading or writing through a null pointer has no result (\<open>None\<close>): every
  \<^verbatim>\<open>p->field\<close> of the source goes through \<open>rd\<close> or \<open>wr\<close>.
\<close>

definition rd :: "state \<Rightarrow> addr \<Rightarrow> RBNode option" where
  "rd s p = (if p = 0 then None else Some (heap s p))"

definition wr :: "addr \<Rightarrow> (RBNode \<Rightarrow> RBNode) \<Rightarrow> state \<Rightarrow> state option" where
  "wr p f s = (if p = 0 then None else Some (s\<lparr>heap := (heap s)(p := f (heap s p))\<rparr>))"

definition get_left :: "state \<Rightarrow> addr \<Rightarrow> addr option" where
  "get_left s p = map_option rb_left (rd s p)"

definition get_right :: "state \<Rightarrow> addr \<Rightarrow> addr option" where
  "get_right s p = map_option rb_right (rd s p)"

definition get_pc :: "state \<Rightarrow> addr \<Rightarrow> 64 word option" where
  "get_pc s p = map_option rb_parent_color (rd s p)"

definition set_left :: "addr \<Rightarrow> addr \<Rightarrow> state \<Rightarrow> state option" where
  "set_left p v s = wr p (\<lambda>n. n\<lparr>rb_left := v\<rparr>) s"

definition set_right :: "addr \<Rightarrow> addr \<Rightarrow> state \<Rightarrow> state option" where
  "set_right p v s = wr p (\<lambda>n. n\<lparr>rb_right := v\<rparr>) s"

definition set_pc :: "addr \<Rightarrow> 64 word \<Rightarrow> state \<Rightarrow> state option" where
  "set_pc p v s = wr p (\<lambda>n. n\<lparr>rb_parent_color := v\<rparr>) s"

section \<open>The packed parent-and-color word\<close>

text \<open>The macros \<^verbatim>\<open>__rb_parent\<close>, \<^verbatim>\<open>__rb_color\<close>, \<^verbatim>\<open>__rb_is_black\<close>, \<^verbatim>\<open>__rb_is_red\<close>
  on a packed word, and \<^verbatim>\<open>rb_color\<close>, \<^verbatim>\<open>rb_is_red\<close>, \<^verbatim>\<open>rb_is_black\<close> on a node.\<close>

definition rb__parent :: "64 word \<Rightarrow> addr" where
  "rb__parent pc = pc AND NOT 3"

definition rb__color :: "64 word \<Rightarrow> 64 word" where
  "rb__color pc = pc AND 1"

definition rb__is_black :: "64 word \<Rightarrow> bool" where
  "rb__is_black pc = (rb__color pc \<noteq> 0)"

definition rb__is_red :: "64 word \<Rightarrow> bool" where
  "rb__is_red pc = (\<not> (rb__color pc \<noteq> 0))"

definition rb_color :: "state \<Rightarrow> addr \<Rightarrow> 64 word option" where
  "rb_color s rb = map_option rb__color (get_pc s rb)"

definition rb_is_red :: "state \<Rightarrow> addr \<Rightarrow> bool option" where
  "rb_is_red s rb = map_option rb__is_red (get_pc s rb)"

definition rb_is_black :: "state \<Rightarrow> addr \<Rightarrow> bool option" where
  "rb_is_black s rb = map_option rb__is_black (get_pc s rb)"

text \<open>Modelled from the spec: the accessor \<^verbatim>\<open>RBNode::parent()\<close> of RBTree.h, which is
  not among the sources. The spec has it read the parent reference with the color bits
  masked out of the packed word. It is named \<open>rb_parent\<close> here.\<close>

definition rb_parent :: "state \<Rightarrow> addr \<Rightarrow> addr option" where
  "rb_parent s rb = map_option rb__parent (get_pc s rb)"

definition rb_set_parent :: "addr \<Rightarrow> addr \<Rightarrow> state \<Rightarrow> state option" where
  "rb_set_parent rb p s = do {
     c \<leftarrow> rb_color s rb;
     set_pc rb (c OR p) s
   }"

definition rb_set_parent_color :: "addr \<Rightarrow> addr \<Rightarrow> 64 word \<Rightarrow> state \<Rightarrow> state option" where
  "rb_set_parent_color rb p color s = set_pc rb (p OR color) s"

definition rb__change_child :: "addr \<Rightarrow> addr \<Rightarrow> addr \<Rightarrow> state \<Rightarrow> state option" where
  "rb__change_child old n parent s =
     (if parent \<noteq> 0 then do {
        l \<leftarrow> get_left s parent;
        if l = old then set_left parent n s else set_right parent n s
      }
      else Some (s\<lparr>rb_node := n\<rparr>))"

definition rb_set_black :: "addr \<Rightarrow> state \<Rightarrow> state option" where
  "rb_set_black rb s = do {
     pc \<leftarrow> get_pc s rb;
     set_pc rb (pc OR RB_BLACK) s
   }"

definition rb_red_parent :: "state \<Rightarrow> addr \<Rightarrow> addr option" where
  "rb_red_parent s red = get_pc s red"

definition rb__rotate_set_parents :: "addr \<Rightarrow> addr \<Rightarrow> 64 word \<Rightarrow> state \<Rightarrow> state option" where
  "rb__rotate_set_parents old n color s = do {
     parent \<leftarrow> rb_parent s old;
     opc \<leftarrow> get_pc s old;
     s \<leftarrow> set_pc n opc s;
     s \<leftarrow> rb_set_parent_color old n color s;
     rb__change_child old n parent s
   }"

section \<open>Unlinking a node: \<^verbatim>\<open>__rb_erase\<close>\<close>

text \<open>The \<^verbatim>\<open>do ... while (tmp)\<close> loop that walks to the leftmost node under the right
  child; it returns the final \<^verbatim>\<open>parent\<close> and \<^verbatim>\<open>successor\<close>.\<close>

partial_function (option) rb__erase_leftmost :: "addr \<Rightarrow> addr \<Rightarrow> state \<Rightarrow> (addr \<times> addr) option" where
  "rb__erase_leftmost successor tmp s = do {
     let parent = successor;
     let successor = tmp;
     tmp \<leftarrow> get_left s tmp;
     if tmp \<noteq> 0 then rb__erase_leftmost successor tmp s else Some (parent, successor)
   }"

text \<open>\<^verbatim>\<open>__rb_erase\<close> returns the \<^verbatim>\<open>rebalance\<close> pointer and the new state.\<close>

definition rb__erase :: "addr \<Rightarrow> state \<Rightarrow> (addr \<times> state) option" where
  "rb__erase node s = do {
     child \<leftarrow> get_right s node;
     tmp \<leftarrow> get_left s node;
     if tmp = 0 then do {
       pc \<leftarrow> get_pc s node;
       let parent = rb__parent pc;
       s \<leftarrow> rb__change_child node child parent s;
       if child \<noteq> 0 then do {
         s \<leftarrow> set_pc child pc s;
         Some (0, s)
       } else
         Some (if rb__is_black pc then parent else 0, s)
     } else if child = 0 then do {
       pc \<leftarrow> get_pc s node;
       s \<leftarrow> set_pc tmp pc s;
       let parent = rb__parent pc;
       s \<leftarrow> rb__change_child node tmp parent s;
       Some (0, s)
     } else do {
       tmp \<leftarrow> get_left s child;
       (successor, parent, child2, s) \<leftarrow>
         (if tmp = 0 then do {
            child2 \<leftarrow> get_right s child;
            Some (child, child, child2, s)
          } else do {
            (parent, successor) \<leftarrow> rb__erase_leftmost child tmp s;
            child2 \<leftarrow> get_right s successor;
            s \<leftarrow> set_left parent child2 s;
            s \<leftarrow> set_right successor child s;
            s \<leftarrow> rb_set_parent child successor s;
            Some (successor, parent, child2, s)
          });
       tmp \<leftarrow> get_left s node;
       s \<leftarrow> set_left successor tmp s;
       s \<leftarrow> rb_set_parent tmp successor s;
       pc \<leftarrow> get_pc s node;
       let tmp = rb__parent pc;
       s \<leftarrow> rb__change_child node successor tmp s;
       if child2 \<noteq> 0 then do {
         s \<leftarrow> set_pc successor pc s;
         s \<leftarrow> rb_set_parent_color child2 parent RB_BLACK s;
         Some (0, s)
       } else do {
         pc2 \<leftarrow> get_pc s successor;
         s \<leftarrow> set_pc successor pc s;
         Some (if rb__is_black pc2 then parent else 0, s)
       }
     }
   }"

section \<open>Insertion fixup: \<^verbatim>\<open>__rb_insert\<close>\<close>

text \<open>One pass through the body of the \<^verbatim>\<open>while (true)\<close> loop ends in \<^verbatim>\<open>continue\<close>
  with new values of \<^verbatim>\<open>node\<close> and \<^verbatim>\<open>parent\<close>, or in \<^verbatim>\<open>break\<close>.\<close>

datatype loop = Continue addr addr state | Break state

definition rb__insert_body :: "addr \<Rightarrow> addr \<Rightarrow> state \<Rightarrow> loop option" where
  "rb__insert_body node parent s =
    (if parent = 0 then do {
       s \<leftarrow> rb_set_parent_color node 0 RB_BLACK s;
       Some (Break s)
     } else do {
       b \<leftarrow> rb_is_black s parent;
       if b then Some (Break s)
       else do {
         gparent \<leftarrow> rb_red_parent s parent;
         tmp \<leftarrow> get_right s gparent;
         if parent \<noteq> tmp then do {
           r \<leftarrow> (if tmp \<noteq> 0 then rb_is_red s tmp else Some False);
           if r then do {
             s \<leftarrow> rb_set_parent_color tmp gparent RB_BLACK s;
             s \<leftarrow> rb_set_parent_color parent gparent RB_BLACK s;
             let node = gparent;
             parent \<leftarrow> rb_parent s node;
             s \<leftarrow> rb_set_parent_color node parent RB_RED s;
             Some (Continue node parent s)
           } else do {
             tmp \<leftarrow> get_right s parent;
             (parent, tmp, s) \<leftarrow>
               (if node = tmp then do {
                  tmp \<leftarrow> get_left s node;
                  s \<leftarrow> set_right parent tmp s;
                  s \<leftarrow> set_left node parent s;
                  s \<leftarrow> (if tmp \<noteq> 0 then rb_set_parent_color tmp parent RB_BLACK s else Some s);
                  s \<leftarrow> rb_set_parent_color parent node RB_RED s;
                  let parent = node;
                  tmp \<leftarrow> get_right s node;
                  Some (parent, tmp, s)
                } else Some (parent, tmp, s));
             s \<leftarrow> set_left gparent tmp s;
             s \<leftarrow> set_right parent gparent s;
             s \<leftarrow> (if tmp \<noteq> 0 then rb_set_parent_color tmp gparent RB_BLACK s else Some s);
             s \<leftarrow> rb__rotate_set_parents gparent parent RB_RED s;
             Some (Break s)
           }
         } else do {
           tmp \<leftarrow> get_left s gparent;
           r \<leftarrow> (if tmp \<noteq> 0 then rb_is_red s tmp else Some False);
           if r then do {
             s \<leftarrow> rb_set_parent_color tmp gparent RB_BLACK s;
             s \<leftarrow> rb_set_parent_color parent gparent RB_BLACK s;
             let node = gparent;
             parent \<leftarrow> rb_parent s node;
             s \<leftarrow> rb_set_parent_color node parent RB_RED s;
             Some (Continue node parent s)
           } else do {
             tmp \<leftarrow> get_left s parent;
             (parent, tmp, s) \<leftarrow>
               (if node = tmp then do {
                  tmp \<leftarrow> get_right s node;
                  s \<leftarrow> set_left parent tmp s;
                  s \<leftarrow> set_right node parent s;
                  s \<leftarrow> (if tmp \<noteq> 0 then rb_set_parent_color tmp parent RB_BLACK s else Some s);
                  s \<leftarrow> rb_set_parent_color parent node RB_RED s;
                  let parent = node;
                  tmp \<leftarrow> get_left s node;
                  Some (parent, tmp, s)
                } else Some (parent, tmp, s));
             s \<leftarrow> set_right gparent tmp s;
             s \<leftarrow> set_left parent gparent s;
             s \<leftarrow> (if tmp \<noteq> 0 then rb_set_parent_color tmp gparent RB_BLACK s else Some s);
             s \<leftarrow> rb__rotate_set_parents gparent parent RB_RED s;
             Some (Break s)
           }
         }
       }
     })"

partial_function (option) rb__insert_loop :: "addr \<Rightarrow> addr \<Rightarrow> state \<Rightarrow> state option" where
  "rb__insert_loop node parent s = do {
     r \<leftarrow> rb__insert_body node parent s;
     case r of Continue node parent s \<Rightarrow> rb__insert_loop node parent s | Break s \<Rightarrow> Some s
   }"

definition rb__insert :: "addr \<Rightarrow> state \<Rightarrow> state option" where
  "rb__insert node s = do {
     parent \<leftarrow> rb_red_parent s node;
     rb__insert_loop node parent s
   }"

definition insert_color :: "addr \<Rightarrow> state \<Rightarrow> state option" where
  "insert_color node s = rb__insert node s"

section \<open>Color fixup after unlinking: \<^verbatim>\<open>__rb_erase_color\<close>\<close>

text \<open>
  The body of the \<^verbatim>\<open>while (true)\<close> loop has two mirrored halves. Each half is given in
  two pieces: Case 1 (the sibling is red), which rotates at \<^verbatim>\<open>parent\<close> and goes on with
  the new sibling \<^verbatim>\<open>tmp1\<close>, and Cases 2 to 4 that follow it in the same pass.
\<close>

text \<open>Case 1 of the half \<^verbatim>\<open>node == parent->rb_left\<close>: the statements under
  \<^verbatim>\<open>if (rb_is_red(sibling))\<close>; returns the new \<^verbatim>\<open>sibling\<close>.\<close>

definition rb__erase_color_left_case1 :: "addr \<Rightarrow> addr \<Rightarrow> state \<Rightarrow> (addr \<times> state) option" where
  "rb__erase_color_left_case1 parent sibling s = do {
     tmp1 \<leftarrow> get_left s sibling;
     s \<leftarrow> set_right parent tmp1 s;
     s \<leftarrow> set_left sibling parent s;
     s \<leftarrow> rb_set_parent_color tmp1 parent RB_BLACK s;
     s \<leftarrow> rb__rotate_set_parents parent sibling RB_RED s;
     Some (tmp1, s)
   }"

text \<open>Cases 2, 3 and 4 of the half \<^verbatim>\<open>node == parent->rb_left\<close>: from
  \<^verbatim>\<open>tmp1 = sibling->rb_right\<close> to the \<^verbatim>\<open>break\<close> after Case 4.\<close>

definition rb__erase_color_left_rest :: "addr \<Rightarrow> addr \<Rightarrow> state \<Rightarrow> loop option" where
  "rb__erase_color_left_rest parent sibling s = do {
     tmp1 \<leftarrow> get_right s sibling;
     b1 \<leftarrow> (if tmp1 = 0 then Some True else rb_is_black s tmp1);
     r \<leftarrow> (if b1 then do {
            tmp2 \<leftarrow> get_left s sibling;
            b2 \<leftarrow> (if tmp2 = 0 then Some True else rb_is_black s tmp2);
            if b2 then do {
              s \<leftarrow> rb_set_parent_color sibling parent RB_RED s;
              r \<leftarrow> rb_is_red s parent;
              if r then do {
                s \<leftarrow> rb_set_black parent s;
                Some (Inl (Break s))
              } else do {
                let node = parent;
                parent \<leftarrow> rb_parent s node;
                if parent \<noteq> 0 then Some (Inl (Continue node parent s))
                else Some (Inl (Break s))
              }
            } else do {
              tmp1 \<leftarrow> get_right s tmp2;
              s \<leftarrow> set_left sibling tmp1 s;
              s \<leftarrow> set_right tmp2 sibling s;
              s \<leftarrow> set_right parent tmp2 s;
              s \<leftarrow> (if tmp1 \<noteq> 0 then rb_set_parent_color tmp1 sibling RB_BLACK s else Some s);
              let tmp1 = sibling;
              let sibling = tmp2;
              Some (Inr (tmp1, sibling, s))
            }
          } else Some (Inr (tmp1, sibling, s)));
     case r of
       Inl l \<Rightarrow> Some l
     | Inr (tmp1, sibling, s) \<Rightarrow> do {
         tmp2 \<leftarrow> get_left s sibling;
         s \<leftarrow> set_right parent tmp2 s;
         s \<leftarrow> set_left sibling parent s;
         s \<leftarrow> rb_set_parent_color tmp1 sibling RB_BLACK s;
         s \<leftarrow> (if tmp2 \<noteq> 0 then rb_set_parent tmp2 parent s else Some s);
         s \<leftarrow> rb__rotate_set_parents parent sibling RB_BLACK s;
         Some (Break s)
       }
   }"

text \<open>The mirrored half, \<^verbatim>\<open>node == parent->rb_right\<close>.\<close>

definition rb__erase_color_right_case1 :: "addr \<Rightarrow> addr \<Rightarrow> state \<Rightarrow> (addr \<times> state) option" where
  "rb__erase_color_right_case1 parent sibling s = do {
     tmp1 \<leftarrow> get_right s sibling;
     s \<leftarrow> set_left parent tmp1 s;
     s \<leftarrow> set_right sibling parent s;
     s \<leftarrow> rb_set_parent_color tmp1 parent RB_BLACK s;
     s \<leftarrow> rb__rotate_set_parents parent sibling RB_RED s;
     Some (tmp1, s)
   }"

definition rb__erase_color_right_rest :: "addr \<Rightarrow> addr \<Rightarrow> state \<Rightarrow> loop option" where
  "rb__erase_color_right_rest parent sibling s = do {
     tmp1 \<leftarrow> get_left s sibling;
     b1 \<leftarrow> (if tmp1 = 0 then Some True else rb_is_black s tmp1);
     r \<leftarrow> (if b1 then do {
            tmp2 \<leftarrow> get_right s sibling;
            b2 \<leftarrow> (if tmp2 = 0 then Some True else rb_is_black s tmp2);
            if b2 then do {
              s \<leftarrow> rb_set_parent_color sibling parent RB_RED s;
              r \<leftarrow> rb_is_red s parent;
              if r then do {
                s \<leftarrow> rb_set_black parent s;
                Some (Inl (Break s))
              } else do {
                let node = parent;
                parent \<leftarrow> rb_parent s node;
                if parent \<noteq> 0 then Some (Inl (Continue node parent s))
                else Some (Inl (Break s))
              }
            } else do {
              tmp1 \<leftarrow> get_left s tmp2;
              s \<leftarrow> set_right sibling tmp1 s;
              s \<leftarrow> set_left tmp2 sibling s;
              s \<leftarrow> set_left parent tmp2 s;
              s \<leftarrow> (if tmp1 \<noteq> 0 then rb_set_parent_color tmp1 sibling RB_BLACK s else Some s);
              let tmp1 = sibling;
              let sibling = tmp2;
              Some (Inr (tmp1, sibling, s))
            }
          } else Some (Inr (tmp1, sibling, s)));
     case r of
       Inl l \<Rightarrow> Some l
     | Inr (tmp1, sibling, s) \<Rightarrow> do {
         tmp2 \<leftarrow> get_right s sibling;
         s \<leftarrow> set_left parent tmp2 s;
         s \<leftarrow> set_right sibling parent s;
         s \<leftarrow> rb_set_parent_color tmp1 sibling RB_BLACK s;
         s \<leftarrow> (if tmp2 \<noteq> 0 then rb_set_parent tmp2 parent s else Some s);
         s \<leftarrow> rb__rotate_set_parents parent sibling RB_BLACK s;
         Some (Break s)
       }
   }"

text \<open>One pass through the loop body: \<^verbatim>\<open>sibling = parent->rb_right\<close>, the test
  \<^verbatim>\<open>node != sibling\<close>, then one of the two halves.\<close>

definition rb__erase_color_body :: "addr \<Rightarrow> addr \<Rightarrow> state \<Rightarrow> loop option" where
  "rb__erase_color_body node parent s = do {
     sibling \<leftarrow> get_right s parent;
     if node \<noteq> sibling then do {
       r \<leftarrow> rb_is_red s sibling;
       (sibling, s) \<leftarrow> (if r then rb__erase_color_left_case1 parent sibling s else Some (sibling, s));
       rb__erase_color_left_rest parent sibling s
     } else do {
       sibling \<leftarrow> get_left s parent;
       r \<leftarrow> rb_is_red s sibling;
       (sibling, s) \<leftarrow> (if r then rb__erase_color_right_case1 parent sibling s else Some (sibling, s));
       rb__erase_color_right_rest parent sibling s
     }
   }"

partial_function (option) rb__erase_color_loop :: "addr \<Rightarrow> addr \<Rightarrow> state \<Rightarrow> state option" where
  "rb__erase_color_loop node parent s = do {
     r \<leftarrow> rb__erase_color_body node parent s;
     case r of Continue node parent s \<Rightarrow> rb__erase_color_loop node parent s | Break s \<Rightarrow> Some s
   }"

definition rb__erase_color :: "addr \<Rightarrow> state \<Rightarrow> state option" where
  "rb__erase_color parent s = rb__erase_color_loop 0 parent s"

section \<open>The public operations of \<^verbatim>\<open>RBTree\<close>\<close>

definition erase :: "addr \<Rightarrow> state \<Rightarrow> state option" where
  "erase node s = do {
     (rebalance, s) \<leftarrow> rb__erase node s;
     if rebalance \<noteq> 0 then rb__erase_color rebalance s else Some s
   }"

definition replace :: "addr \<Rightarrow> addr \<Rightarrow> state \<Rightarrow> state option" where
  "replace victim n s = do {
     parent \<leftarrow> rb_parent s victim;
     s \<leftarrow> rb__change_child victim n parent s;
     l \<leftarrow> get_left s victim;
     s \<leftarrow> (if l \<noteq> 0 then rb_set_parent l n s else Some s);
     r \<leftarrow> get_right s victim;
     s \<leftarrow> (if r \<noteq> 0 then rb_set_parent r n s else Some s);
     v \<leftarrow> rd s victim;
     wr n (\<lambda>_. v) s
   }"

section \<open>Linking a node and inserting by key\<close>

text \<open>Modelled from the spec: \<^verbatim>\<open>link_node\<close> (\<^verbatim>\<open>rb_link_node\<close> of RBTree.h, which is not among
  the sources). The spec has it set the new node's children to absent, its parent to
  \<open>parent\<close> and its color to red, and attach it to \<open>parent\<close> on the requested side, or
  install it as the root if \<open>parent\<close> is absent.\<close>

datatype side = LeftSide | RightSide

definition rb_link_node :: "addr \<Rightarrow> addr \<Rightarrow> side \<Rightarrow> state \<Rightarrow> state option" where
  "rb_link_node node parent sd s = do {
     s \<leftarrow> set_left node 0 s;
     s \<leftarrow> set_right node 0 s;
     s \<leftarrow> rb_set_parent_color node parent RB_RED s;
     if parent = 0 then Some (s\<lparr>rb_node := node\<rparr>)
     else (case sd of LeftSide \<Rightarrow> set_left parent node s | RightSide \<Rightarrow> set_right parent node s)
   }"

text \<open>Modelled from the spec: the caller's part of an insertion. The caller walks down
  from the root comparing keys (\<open>key\<close> gives the key of the payload a node is embedded
  in), finds the future parent and the side, links the node there as a red leaf and
  calls \<open>insert_color\<close>.\<close>

partial_function (option) bst_descend :: "(addr \<Rightarrow> int) \<Rightarrow> int \<Rightarrow> addr \<Rightarrow> state \<Rightarrow> (addr \<times> side) option" where
  "bst_descend key k cur s =
     (if k < key cur then do {
        l \<leftarrow> get_left s cur;
        if l = 0 then Some (cur, LeftSide) else bst_descend key k l s
      } else do {
        r \<leftarrow> get_right s cur;
        if r = 0 then Some (cur, RightSide) else bst_descend key k r s
      })"

definition insert_key :: "(addr \<Rightarrow> int) \<Rightarrow> addr \<Rightarrow> state \<Rightarrow> state option" where
  "insert_key key node s = do {
     (parent, sd) \<leftarrow> (if rb_node s = 0 then Some (0, LeftSide)
                       else bst_descend key (key node) (rb_node s) s);
     s \<leftarrow> rb_link_node node parent sd s;
     insert_color node s
   }"

fun insert_keys :: "(addr \<Rightarrow> int) \<Rightarrow> addr list \<Rightarrow> state \<Rightarrow> state option" where
  "insert_keys key [] s = Some s"
| "insert_keys key (n # ns) s = do { s \<leftarrow> insert_key key n s; insert_keys key ns s }"

section \<open>Trees in the store\<close>

datatype color = Red | Black

datatype tree = Leaf | Node tree addr color tree

fun ptr :: "tree \<Rightarrow> addr" where
  "ptr Leaf = 0"
| "ptr (Node l a c r) = a"

fun color_of :: "tree \<Rightarrow> color" where
  "color_of Leaf = Black"
| "color_of (Node l a c r) = c"

fun colbit :: "color \<Rightarrow> 64 word" where
  "colbit Red = RB_RED"
| "colbit Black = RB_BLACK"

fun nodes :: "tree \<Rightarrow> addr list" where
  "nodes Leaf = []"
| "nodes (Node l a c r) = nodes l @ a # nodes r"

text \<open>
  \<open>tr h t par\<close>: the store \<open>h\<close> holds the tree \<open>t\<close> below a node (or root slot) \<open>par\<close>.
  Every node of \<open>t\<close> is a non-null pointer aligned to four bytes; its child fields point
  to the roots of its subtrees (null for \<open>Leaf\<close>), and its packed word holds its parent
  and its color: invariant 4 of the spec, parent pointers consistent with child pointers.
\<close>

fun tr :: "(addr \<Rightarrow> RBNode) \<Rightarrow> tree \<Rightarrow> addr \<Rightarrow> bool" where
  "tr h Leaf par = True"
| "tr h (Node l a c r) par =
     (a \<noteq> 0 \<and> a AND 3 = 0 \<and>
      h a = \<lparr>rb_parent_color = par OR colbit c, rb_right = ptr r, rb_left = ptr l\<rparr> \<and>
      tr h l a \<and> tr h r a)"

text \<open>\<open>rep s t\<close>: the tree of state \<open>s\<close> is \<open>t\<close>: \<^verbatim>\<open>rb_node\<close> points to its root, whose
  parent is null, and no node occurs twice.\<close>

definition rep :: "state \<Rightarrow> tree \<Rightarrow> bool" where
  "rep s t = (rb_node s = ptr t \<and> tr (heap s) t 0 \<and> distinct (nodes t))"

text \<open>Invariants 1 to 3 of the spec on a tree: \<open>bh\<close> counts the black nodes down the
  leftmost path, \<open>invh\<close> says every path from a node to an absent child has the same
  count, \<open>invc\<close> that no red node has a red child.\<close>

fun bh :: "tree \<Rightarrow> nat" where
  "bh Leaf = 0"
| "bh (Node l a c r) = (if c = Black then Suc (bh l) else bh l)"

fun invh :: "tree \<Rightarrow> bool" where
  "invh Leaf = True"
| "invh (Node l a c r) = (bh l = bh r \<and> invh l \<and> invh r)"

fun invc :: "tree \<Rightarrow> bool" where
  "invc Leaf = True"
| "invc (Node l a c r) =
     ((c = Red \<longrightarrow> color_of l = Black \<and> color_of r = Black) \<and> invc l \<and> invc r)"

definition rbt :: "tree \<Rightarrow> bool" where
  "rbt t = (color_of t = Black \<and> invc t \<and> invh t)"

text \<open>A position in a tree is the list of frames from the position up to the root.
  \<open>LF a c r\<close>: the position is the left child of node \<open>a\<close> of color \<open>c\<close> with right
  subtree \<open>r\<close>; \<open>RF l a c\<close>: it is the right child of \<open>a\<close>, with left subtree \<open>l\<close>.\<close>

datatype frame = LF addr color tree | RF tree addr color

fun fill :: "frame \<Rightarrow> tree \<Rightarrow> tree" where
  "fill (LF a c r) t = Node t a c r"
| "fill (RF l a c) t = Node l a c t"

fun plug :: "frame list \<Rightarrow> tree \<Rightarrow> tree" where
  "plug [] t = t"
| "plug (f # fs) t = plug fs (fill f t)"

section \<open>Positions in the store\<close>

text \<open>The node of a frame, the nodes a frame brings along (its own and those of the
  sibling subtree), and the nodes of a position.\<close>

fun faddr :: "frame \<Rightarrow> addr" where
  "faddr (LF a c r) = a"
| "faddr (RF l a c) = a"

fun fnodes :: "frame \<Rightarrow> addr list" where
  "fnodes (LF a c r) = a # nodes r"
| "fnodes (RF l a c) = a # nodes l"

fun cnodes :: "frame list \<Rightarrow> addr list" where
  "cnodes [] = []"
| "cnodes (f # fs) = fnodes f @ cnodes fs"

text \<open>\<open>cpar tp ctx\<close> is the parent pointer of the subtree at position \<open>ctx\<close>: the node of
  the innermost frame, or \<open>tp\<close> when there is no frame (\<open>tp\<close> is null for a position in
  the whole tree). \<open>ctop ctx p\<close> is the pointer to the root of \<open>plug ctx t\<close> when \<open>p\<close>
  points to \<open>t\<close>.\<close>

fun cpar :: "addr \<Rightarrow> frame list \<Rightarrow> addr" where
  "cpar tp [] = tp"
| "cpar tp (f # fs) = faddr f"

fun ctop :: "frame list \<Rightarrow> addr \<Rightarrow> addr" where
  "ctop [] p = p"
| "ctop (f # fs) p = ctop fs (faddr f)"

text \<open>\<open>cx h tp ctx p\<close>: the store \<open>h\<close> holds the frames of \<open>ctx\<close> around a subtree whose
  root pointer is \<open>p\<close>, below a parent \<open>tp\<close>: the counterpart of \<open>tr\<close> for the part of a
  tree that surrounds a position (\<open>tr_plug\<close>).\<close>

fun cx :: "(addr \<Rightarrow> RBNode) \<Rightarrow> addr \<Rightarrow> frame list \<Rightarrow> addr \<Rightarrow> bool" where
  "cx h tp [] p = True"
| "cx h tp (LF a c r # fs) p =
     (a \<noteq> 0 \<and> a AND 3 = 0 \<and>
      h a = \<lparr>rb_parent_color = cpar tp fs OR colbit c, rb_right = ptr r, rb_left = p\<rparr> \<and>
      tr h r a \<and> cx h tp fs a)"
| "cx h tp (RF l a c # fs) p =
     (a \<noteq> 0 \<and> a AND 3 = 0 \<and>
      h a = \<lparr>rb_parent_color = cpar tp fs OR colbit c, rb_right = p, rb_left = ptr l\<rparr> \<and>
      tr h l a \<and> cx h tp fs a)"

text \<open>What \<open>rb__change_child\<close> does to the state when the old child stands at position
  \<open>ctx\<close>: it stores the new pointer in the child field of the innermost frame, or in
  \<^verbatim>\<open>rb_node\<close> at the root (\<open>change_child_chg\<close>).\<close>

fun chg :: "frame list \<Rightarrow> addr \<Rightarrow> state \<Rightarrow> state" where
  "chg [] n s = s\<lparr>rb_node := n\<rparr>"
| "chg (LF a c r # fs) n s = s\<lparr>heap := (heap s)(a := (heap s a)\<lparr>rb_left := n\<rparr>)\<rparr>"
| "chg (RF l a c # fs) n s = s\<lparr>heap := (heap s)(a := (heap s a)\<lparr>rb_right := n\<rparr>)\<rparr>"

text \<open>Distinctness of node lists in a form that keeps both orientations of every
  disequality: \<open>nin\<close> is non-membership, \<open>dj\<close> disjointness, \<open>dst\<close> is \<open>distinct\<close>.\<close>

definition nin :: "addr \<Rightarrow> addr list \<Rightarrow> bool" where
  "nin a xs = (a \<notin> set xs)"

definition dj :: "addr list \<Rightarrow> addr list \<Rightarrow> bool" where
  "dj xs ys = (set xs \<inter> set ys = {})"

definition dst :: "addr list \<Rightarrow> bool" where
  "dst xs = distinct xs"

section \<open>Colors and invariants at a position\<close>

text \<open>Recoloring the root of a tree or the node of a frame.\<close>

fun paint :: "color \<Rightarrow> tree \<Rightarrow> tree" where
  "paint c Leaf = Leaf"
| "paint c (Node l a c' r) = Node l a c r"

fun fcol :: "frame \<Rightarrow> color" where
  "fcol (LF a c r) = c"
| "fcol (RF l a c) = c"

fun fpaint :: "color \<Rightarrow> frame \<Rightarrow> frame" where
  "fpaint c' (LF a c r) = LF a c' r"
| "fpaint c' (RF l a c) = RF l a c'"

text \<open>The invariants of \<open>plug ctx t\<close> split into those of \<open>t\<close> and those of \<open>ctx\<close>:
  \<open>invhc k ctx\<close> says the black counts around the position agree with a subtree of black
  height \<open>k\<close> (\<open>invh_plug\<close>), \<open>invcc hc ctx\<close> that no red node around the position has a red
  child when the subtree's root has color \<open>hc\<close> (\<open>invc_plug\<close>), and \<open>ccol ctx c\<close> is the
  color of the root of the whole tree when the subtree's root has color \<open>c\<close>.\<close>

fun invhc :: "nat \<Rightarrow> frame list \<Rightarrow> bool" where
  "invhc k [] = True"
| "invhc k (LF a c r # fs) = (bh r = k \<and> invh r \<and> invhc (if c = Black then Suc k else k) fs)"
| "invhc k (RF l a c # fs) = (bh l = k \<and> invh l \<and> invhc (if c = Black then Suc k else k) fs)"

fun invcc :: "color \<Rightarrow> frame list \<Rightarrow> bool" where
  "invcc hc [] = True"
| "invcc hc (LF a c r # fs) = ((c = Red \<longrightarrow> hc = Black \<and> color_of r = Black) \<and> invc r \<and> invcc c fs)"
| "invcc hc (RF l a c # fs) = ((c = Red \<longrightarrow> hc = Black \<and> color_of l = Black) \<and> invc l \<and> invcc c fs)"

fun ccol :: "frame list \<Rightarrow> color \<Rightarrow> color" where
  "ccol [] c = c"
| "ccol (f # fs) c = ccol fs (fcol f)"

text \<open>The nodes before and after a position in the in-order sequence
  (\<open>nodes_plug\<close>).\<close>

fun cpre :: "frame list \<Rightarrow> addr list" where
  "cpre [] = []"
| "cpre (LF a c r # fs) = cpre fs"
| "cpre (RF l a c # fs) = cpre fs @ nodes l @ [a]"

fun cpost :: "frame list \<Rightarrow> addr list" where
  "cpost [] = []"
| "cpost (LF a c r # fs) = a # nodes r @ cpost fs"
| "cpost (RF l a c # fs) = cpost fs"

section \<open>Loop heads, loop invariants and examples\<close>

text \<open>The values of \<^verbatim>\<open>node\<close> and \<^verbatim>\<open>parent\<close> and the state at the head of pass \<open>k\<close>
  of the loop of \<^verbatim>\<open>__rb_insert\<close> (pass 0 is the first), if the loop gets that far.\<close>

fun rb__insert_head :: "nat \<Rightarrow> addr \<Rightarrow> addr \<Rightarrow> state \<Rightarrow> (addr \<times> addr \<times> state) option" where
  "rb__insert_head 0 node parent s = Some (node, parent, s)"
| "rb__insert_head (Suc k) node parent s =
     (case rb__insert_body node parent s of
        Some (Continue node' parent' s') \<Rightarrow> rb__insert_head k node' parent' s'
      | _ \<Rightarrow> None)"

definition rb__insert_heads :: "nat \<Rightarrow> addr \<Rightarrow> state \<Rightarrow> (addr \<times> addr \<times> state) option" where
  "rb__insert_heads k node s = do {
     parent \<leftarrow> rb_red_parent s node;
     rb__insert_head k node parent s
   }"

text \<open>The distance of a node from the root: the number of parent links to follow until
  the parent is null.\<close>

partial_function (option) rb_depth :: "state \<Rightarrow> addr \<Rightarrow> nat option" where
  "rb_depth s n = do {
     p \<leftarrow> rb_parent s n;
     if p = 0 then Some 0 else do { d \<leftarrow> rb_depth s p; Some (Suc d) }
   }"

text \<open>The invariant of the loop of \<^verbatim>\<open>__rb_insert\<close>: the state holds \<open>plug ctx t\<close>, where
  \<open>t\<close> is the subtree at \<^verbatim>\<open>node\<close>; \<open>t\<close> has a red root and the invariants hold everywhere
  except that the parent of \<open>t\<close> may be red as well.\<close>

definition ins_inv :: "state \<Rightarrow> frame list \<Rightarrow> tree \<Rightarrow> bool" where
  "ins_inv s ctx t =
     (rep s (plug ctx t) \<and> t \<noteq> Leaf \<and> color_of t = Red \<and> invc t \<and> invh t \<and>
      invhc (bh t) ctx \<and> invcc Black ctx \<and> ccol ctx Black = Black)"

text \<open>Whether a pass of the loop of \<^verbatim>\<open>__rb_insert\<close> that starts with this \<^verbatim>\<open>parent\<close> is
  a Case 1 pass: the tests of the source that lead to the two \<^verbatim>\<open>Case 1 - color flips\<close>
  blocks (the parent is present and red, and the uncle is present and red).\<close>

definition rb__insert_case1 :: "addr \<Rightarrow> state \<Rightarrow> bool option" where
  "rb__insert_case1 parent s =
    (if parent = 0 then Some False
     else do {
       b \<leftarrow> rb_is_black s parent;
       if b then Some False
       else do {
         gparent \<leftarrow> rb_red_parent s parent;
         tmp \<leftarrow> get_right s gparent;
         if parent \<noteq> tmp then (if tmp \<noteq> 0 then rb_is_red s tmp else Some False)
         else do {
           tmp \<leftarrow> get_left s gparent;
           if tmp \<noteq> 0 then rb_is_red s tmp else Some False
         }
       }
     })"

text \<open>A small state for the examples: the black root 16 with the red left child 8, and
  the node 4 attached as a red leaf to the left of 8.\<close>

definition example_state :: state where
  "example_state =
     \<lparr>heap = (\<lambda>_. \<lparr>rb_parent_color = 0, rb_right = 0, rb_left = 0\<rparr>)
          (16 := \<lparr>rb_parent_color = 1, rb_right = 0, rb_left = 8\<rparr>,
           8 := \<lparr>rb_parent_color = 16, rb_right = 0, rb_left = 4\<rparr>,
           4 := \<lparr>rb_parent_color = 8, rb_right = 0, rb_left = 0\<rparr>), rb_node = 16\<rparr>"

definition example_ctx :: "frame list" where
  "example_ctx = [LF 8 Red Leaf, LF 16 Black Leaf]"

text \<open>The setting of scenario 2 of the spec: the node of key \<open>k\<close> lives at address
  \<open>8 * k\<close>, and the store is empty at the start.\<close>

definition key8 :: "addr \<Rightarrow> int" where
  "key8 a = uint a div 8"

definition empty_state :: state where
  "empty_state = \<lparr>heap = (\<lambda>_. \<lparr>rb_parent_color = 0, rb_right = 0, rb_left = 0\<rparr>), rb_node = 0\<rparr>"

text \<open>The tree that the seven insertions build: root 2.\<close>

definition tree7 :: tree where
  "tree7 = Node (Node Leaf 8 Black Leaf) 16 Black
             (Node (Node Leaf 24 Black Leaf) 32 Red
                   (Node (Node Leaf 40 Red Leaf) 48 Black (Node Leaf 56 Red Leaf)))"

text \<open>A second small state: the black root 16 with the red children 8 and 24.\<close>

definition example2_state :: state where
  "example2_state =
     \<lparr>heap = (\<lambda>_. \<lparr>rb_parent_color = 0, rb_right = 0, rb_left = 0\<rparr>)
          (16 := \<lparr>rb_parent_color = 1, rb_right = 24, rb_left = 8\<rparr>,
           8 := \<lparr>rb_parent_color = 16, rb_right = 0, rb_left = 0\<rparr>,
           24 := \<lparr>rb_parent_color = 16, rb_right = 0, rb_left = 0\<rparr>), rb_node = 16\<rparr>"

definition example2_ctx :: "frame list" where
  "example2_ctx = [LF 16 Black (Node Leaf 24 Red Leaf)]"

text \<open>A frame of a leftmost path: the position is a left child.\<close>

fun is_LF :: "frame \<Rightarrow> bool" where
  "is_LF (LF a c r) = True"
| "is_LF (RF l a c) = False"

text \<open>The invariant of the loop of \<^verbatim>\<open>__rb_erase_color\<close>: the state holds \<open>plug ctx t\<close>,
  where \<open>t\<close> is the subtree at \<^verbatim>\<open>node\<close> (a leaf on the first pass) and \<open>ctx\<close> is not empty
  (\<^verbatim>\<open>parent\<close> is not null); \<open>t\<close> has a black root, and the invariants hold except that
  the paths through \<open>t\<close> have one black node less than the others.\<close>

definition del_inv :: "state \<Rightarrow> frame list \<Rightarrow> tree \<Rightarrow> bool" where
  "del_inv s ctx t =
     (rep s (plug ctx t) \<and> ctx \<noteq> [] \<and> color_of t = Black \<and> invc t \<and> invh t \<and>
      invhc (Suc (bh t)) ctx \<and> invcc Black ctx \<and> ccol ctx Black = Black)"

text \<open>The leftmost node of a tree, with its color and its right subtree.\<close>

fun split_min :: "tree \<Rightarrow> addr \<times> color \<times> tree" where
  "split_min Leaf = (0, Black, Leaf)"
| "split_min (Node l a c r) = (if l = Leaf then (a, c, r) else split_min l)"

text \<open>Modelled from the spec: the color that the unlink phase of \<open>erase\<close> remembers as
  removed, for the subtree at the erased node: the erased node's own color when it has
  no left child or no right child, and otherwise the original color of its in-order
  successor, the leftmost node of its right subtree.\<close>

fun removed_color :: "tree \<Rightarrow> color" where
  "removed_color Leaf = Black"
| "removed_color (Node l n c r) =
     (if l = Leaf \<or> r = Leaf then c else fst (snd (split_min r)))"

text \<open>Modelled from the spec: the replacement, the subtree that takes the slot of the
  node that is spliced out: the right child of the erased node when it has no left child,
  its left child when it has no right child, otherwise the right child of the successor.\<close>

fun replacement :: "tree \<Rightarrow> tree" where
  "replacement Leaf = Leaf"
| "replacement (Node l n c r) =
     (if l = Leaf then r else if r = Leaf then l else snd (snd (split_min r)))"

text \<open>A third small state: the black root 8 with the red right child 16.\<close>

definition example3_state :: state where
  "example3_state =
     \<lparr>heap = (\<lambda>_. \<lparr>rb_parent_color = 0, rb_right = 0, rb_left = 0\<rparr>)
          (8 := \<lparr>rb_parent_color = 1, rb_right = 16, rb_left = 0\<rparr>,
           16 := \<lparr>rb_parent_color = 8, rb_right = 0, rb_left = 0\<rparr>), rb_node = 8\<rparr>"

definition example3_tree :: tree where
  "example3_tree = Node Leaf 8 Black (Node Leaf 16 Red Leaf)"

text \<open>A state in the middle of a color fixup: the black root 16 has lost its left child;
  its right child 32 is red and has the black children 24 and 40.\<close>

definition example4_state :: state where
  "example4_state =
     \<lparr>heap = (\<lambda>_. \<lparr>rb_parent_color = 0, rb_right = 0, rb_left = 0\<rparr>)
          (16 := \<lparr>rb_parent_color = 1, rb_right = 32, rb_left = 0\<rparr>,
           32 := \<lparr>rb_parent_color = 16, rb_right = 40, rb_left = 24\<rparr>,
           24 := \<lparr>rb_parent_color = 33, rb_right = 0, rb_left = 0\<rparr>,
           40 := \<lparr>rb_parent_color = 33, rb_right = 0, rb_left = 0\<rparr>), rb_node = 16\<rparr>"

definition example4_ctx :: "frame list" where
  "example4_ctx = [LF 16 Black (Node (Node Leaf 24 Black Leaf) 32 Red (Node Leaf 40 Black Leaf))]"

text \<open>The side on which a position hangs below its parent.\<close>

fun side_of :: "frame list \<Rightarrow> side" where
  "side_of (RF l a c # fs) = RightSide"
| "side_of fs = LeftSide"

section \<open>Basic facts\<close>

subsection \<open>Word facts\<close>

lemma bit3: "bit (3::64 word) n = (n < 2)"
proof -
  have e: "(3::64 word) = mask 2" by (simp add: mask_eq_exp_minus_1)
  show ?thesis by (subst e, simp only: bit_mask_iff, auto)
qed

lemma bit1: "bit (1::64 word) n = (n = 0)"
  by (simp only: bit_1_iff)

lemma al_bits: "(p::64 word) AND 3 = 0 \<Longrightarrow> bit p n \<Longrightarrow> 2 \<le> n"
proof -
  assume a: "p AND 3 = 0" and b: "bit p n"
  have "\<not> bit (p AND 3) n" by (simp only: a bit_0_eq, simp)
  then have "\<not> bit (3::64 word) n" using b by (simp only: bit_and_iff simp_thms)
  then have "\<not> n < 2" by (simp only: bit3 simp_thms)
  then show ?thesis by simp
qed

lemma par_pack: "p AND 3 = 0 \<Longrightarrow> rb__parent (p OR colbit c) = p"
  apply (rule bit_word_eqI)
  apply (cases c)
  apply (simp_all only: rb__parent_def RB_RED_def RB_BLACK_def colbit.simps bit_and_iff bit_or_iff bit_not_iff bit3 bit1 bit_0_eq)
  apply (auto dest: al_bits)
  done

lemma col_pack: "p AND 3 = 0 \<Longrightarrow> rb__color (p OR colbit c) = colbit c"
  apply (rule bit_word_eqI)
  apply (cases c)
  apply (simp_all only: rb__color_def RB_RED_def RB_BLACK_def colbit.simps bit_and_iff bit_or_iff bit_not_iff bit3 bit1 bit_0_eq)
  apply (auto dest: al_bits)
  done

lemma black_pack: "(p OR colbit c) OR RB_BLACK = p OR RB_BLACK"
  apply (rule bit_word_eqI)
  apply (cases c)
  apply (simp_all only: RB_RED_def RB_BLACK_def colbit.simps bit_and_iff bit_or_iff bit_not_iff bit3 bit1 bit_0_eq)
  apply (auto)
  done

lemma or_red [simp]: "p OR RB_RED = p"
  by (simp add: RB_RED_def)

lemma black_black [simp]: "(p OR RB_BLACK) OR RB_BLACK = p OR RB_BLACK"
  using black_pack [of p Black] by simp

lemma black_pack' [simp]: "(p OR colbit c) OR RB_BLACK = p OR RB_BLACK"
  by (rule black_pack)

lemma par_pack_black [simp]: "p AND 3 = 0 \<Longrightarrow> rb__parent (p OR RB_BLACK) = p"
  using par_pack [of p Black] by simp

lemma par_pack_red [simp]: "p AND 3 = 0 \<Longrightarrow> rb__parent p = p"
  using par_pack [of p Red] by simp

lemma par_pack_col [simp]: "p AND 3 = 0 \<Longrightarrow> rb__parent (p OR colbit c) = p"
  by (rule par_pack)

lemma col_pack_black [simp]: "p AND 3 = 0 \<Longrightarrow> rb__color (p OR RB_BLACK) = RB_BLACK"
  using col_pack [of p Black] by simp

lemma col_pack_red [simp]: "p AND 3 = 0 \<Longrightarrow> rb__color p = RB_RED"
  using col_pack [of p Red] by simp

lemma col_pack_col [simp]: "p AND 3 = 0 \<Longrightarrow> rb__color (p OR colbit c) = colbit c"
  by (rule col_pack)

lemma pack_null [simp]:
  "rb__parent (colbit c) = 0" "rb__color (colbit c) = colbit c"
  "rb__parent RB_BLACK = 0" "rb__color RB_BLACK = RB_BLACK"
  using par_pack [of 0 c] col_pack [of 0 c] par_pack [of 0 Black] col_pack [of 0 Black]
  by simp_all

lemma RB_neq [simp]: "RB_BLACK \<noteq> 0" "RB_RED = 0" "RB_BLACK \<noteq> RB_RED" "RB_RED \<noteq> RB_BLACK"
  by (simp_all add: RB_RED_def RB_BLACK_def)

lemma colbit_zero [simp]: "(colbit c = 0) = (c = Red)"
  by (cases c) simp_all

lemma colbit_or_comm [simp]: "colbit c OR p = p OR colbit c" "RB_BLACK OR p = p OR RB_BLACK"
  by (simp_all add: or.commute)

lemma null_al [simp]: "(0::64 word) AND 3 = 0"
  by simp

lemma pack_inj: "p AND 3 = 0 \<Longrightarrow> q AND 3 = 0 \<Longrightarrow> (p OR colbit c = q OR colbit d) = (p = q \<and> c = d)"
  apply (rule iffI)
   apply (frule par_pack[where c=c])
   apply (frule col_pack[where c=c])
   apply (simp add: par_pack col_pack)
   apply (cases c; cases d; simp add: RB_RED_def RB_BLACK_def)
  apply simp
  done

lemma pack_black_neq [simp]: "p AND 3 = 0 \<Longrightarrow> q AND 3 = 0 \<Longrightarrow> (p OR RB_BLACK = q) = False"
  "p AND 3 = 0 \<Longrightarrow> q AND 3 = 0 \<Longrightarrow> (q = p OR RB_BLACK) = False"
  using pack_inj [of p q Black Red] by auto

lemma pack_black_eq [simp]: "p AND 3 = 0 \<Longrightarrow> q AND 3 = 0 \<Longrightarrow> (p OR RB_BLACK = q OR RB_BLACK) = (p = q)"
  using pack_inj [of p q Black Black] by auto

lemma pack_col_eq [simp]: "p AND 3 = 0 \<Longrightarrow> q AND 3 = 0 \<Longrightarrow> (p OR colbit c = q OR colbit d) = (p = q \<and> c = d)"
  by (rule pack_inj)

lemma pack_col_black [simp]: "p AND 3 = 0 \<Longrightarrow> q AND 3 = 0 \<Longrightarrow> (p OR colbit c = q OR RB_BLACK) = (p = q \<and> c = Black)"
  "p AND 3 = 0 \<Longrightarrow> q AND 3 = 0 \<Longrightarrow> (q OR RB_BLACK = p OR colbit c) = (p = q \<and> c = Black)"
  using pack_inj [of p q c Black] by auto

lemma pack_col_red [simp]: "p AND 3 = 0 \<Longrightarrow> q AND 3 = 0 \<Longrightarrow> (p OR colbit c = q) = (p = q \<and> c = Red)"
  "p AND 3 = 0 \<Longrightarrow> q AND 3 = 0 \<Longrightarrow> (q = p OR colbit c) = (p = q \<and> c = Red)"
  using pack_inj [of p q c Red] by auto

subsection \<open>Distinctness, with both orientations of every disequality\<close>

lemma nin_simps [simp]:
  "nin a [] = True"
  "nin a (b # xs) = (a \<noteq> b \<and> b \<noteq> a \<and> nin a xs)"
  "nin a (xs @ ys) = (nin a xs \<and> nin a ys)"
  by (auto simp add: nin_def)

lemma dj_simps [simp]:
  "dj [] ys = True"
  "dj xs [] = True"
  "dj (a # xs) ys = (nin a ys \<and> dj xs ys)"
  "dj xs (b # ys) = (nin b xs \<and> dj xs ys)"
  "dj (xs @ xs') ys = (dj xs ys \<and> dj xs' ys)"
  "dj xs (ys @ ys') = (dj xs ys \<and> dj xs ys')"
  by (auto simp add: nin_def dj_def)

lemma dst_simps [simp]:
  "dst [] = True"
  "dst (a # xs) = (nin a xs \<and> dst xs)"
  "dst (xs @ ys) = (dst xs \<and> dst ys \<and> dj xs ys \<and> dj ys xs)"
  by (auto simp add: nin_def dj_def dst_def)

lemma dj_sym: "dj xs ys = dj ys xs"
  by (auto simp add: dj_def)

subsection \<open>Positions\<close>

lemma ptr_fill [simp]: "ptr (fill f t) = faddr f"
  by (cases f) auto

lemma ptr_plug' [simp]: "ptr (plug ctx t) = ctop ctx (ptr t)"
  by (induction ctx arbitrary: t) auto

lemma tr_plug: "tr h (plug ctx t) tp = (tr h t (cpar tp ctx) \<and> cx h tp ctx (ptr t))"
proof (induction ctx arbitrary: t)
  case Nil
  then show ?case by simp
next
  case (Cons f fs)
  then show ?case by (cases f) auto
qed

lemma set_nodes_plug: "set (nodes (plug ctx t)) = set (nodes t) \<union> set (cnodes ctx)"
proof (induction ctx arbitrary: t)
  case Nil
  then show ?case by simp
next
  case (Cons f fs)
  then show ?case by (cases f) auto
qed

lemma distinct_plug:
  "distinct (nodes (plug ctx t)) =
     (distinct (nodes t) \<and> distinct (cnodes ctx) \<and> set (nodes t) \<inter> set (cnodes ctx) = {})"
proof (induction ctx arbitrary: t)
  case Nil
  then show ?case by simp
next
  case (Cons f fs)
  then show ?case by (cases f) auto
qed

lemma tr_upd [simp]: "nin a (nodes t) \<Longrightarrow> tr (h(a := n)) t par = tr h t par"
  by (induction t arbitrary: par) auto

lemma cx_upd [simp]: "nin a (cnodes ctx) \<Longrightarrow> cx (h(a := n)) tp ctx p = cx h tp ctx p"
  by (induction h tp ctx p rule: cx.induct) auto

lemma tr_ptr_nz: "tr h t par \<Longrightarrow> t \<noteq> Leaf \<Longrightarrow> ptr t \<noteq> 0"
  by (cases t) auto

lemma tr_al: "tr h t par \<Longrightarrow> ptr t AND 3 = 0"
  by (cases t) auto

lemma cx_al: "cx h tp ctx p \<Longrightarrow> tp AND 3 = 0 \<Longrightarrow> cpar tp ctx AND 3 = 0"
  apply (cases ctx) apply simp
  subgoal for f fs by (cases f) auto
  done

lemma tr_nodes_nz: "tr h t par \<Longrightarrow> 0 \<notin> set (nodes t)"
  by (induction t arbitrary: par) auto

lemma cx_nodes_nz: "cx h tp ctx p \<Longrightarrow> 0 \<notin> set (cnodes ctx)"
  by (induction h tp ctx p rule: cx.induct) (auto dest: tr_nodes_nz)

text \<open>The effect of \<open>rb__change_child\<close> at a position.\<close>

lemma change_child_chg:
  "cx (heap s) 0 ctx old \<Longrightarrow> old \<noteq> 0 \<Longrightarrow> nin old (cnodes ctx) \<Longrightarrow>
   rb__change_child old new (cpar 0 ctx) s = Some (chg ctx new s)"
  apply (cases ctx)
   apply (simp add: rb__change_child_def)
  subgoal for f fs
    apply (cases f)
    subgoal for a c r
      by (auto simp add: rb__change_child_def get_left_def rd_def set_left_def set_right_def wr_def)
    subgoal for l a c
      apply (cases l)
      by (auto simp add: rb__change_child_def get_left_def rd_def set_left_def set_right_def wr_def)
    done
  done

lemma heap_chg [simp]: "nin a (cnodes ctx) \<Longrightarrow> heap (chg ctx n s) a = heap s a"
  apply (cases ctx) apply simp
  subgoal for f fs by (cases f) auto
  done

lemma tr_chg [simp]: "dj (nodes t) (cnodes ctx) \<Longrightarrow> tr (heap (chg ctx n s)) t par = tr (heap s) t par"
  apply (cases ctx) apply simp
  subgoal for f fs by (cases f) auto
  done

lemma cx_chg: "cx (heap s) 0 ctx old \<Longrightarrow> dst (cnodes ctx) \<Longrightarrow> cx (heap (chg ctx n s)) 0 ctx n"
  apply (cases ctx) apply simp
  subgoal for f fs by (cases f) auto
  done

lemma root_chg: "rb_node s = ctop ctx old \<Longrightarrow> rb_node (chg ctx n s) = ctop ctx n"
  apply (cases ctx) apply simp
  subgoal for f fs by (cases f) auto
  done

lemma cx_LF [simp]:
  "tp AND 3 = 0 \<Longrightarrow> cx h tp (LF a c r # fs) p =
     (a \<noteq> 0 \<and> a AND 3 = 0 \<and> cpar tp fs AND 3 = 0 \<and>
      h a = \<lparr>rb_parent_color = cpar tp fs OR colbit c, rb_right = ptr r, rb_left = p\<rparr> \<and>
      tr h r a \<and> cx h tp fs a)"
  by (auto dest: cx_al)

lemma cx_RF [simp]:
  "tp AND 3 = 0 \<Longrightarrow> cx h tp (RF l a c # fs) p =
     (a \<noteq> 0 \<and> a AND 3 = 0 \<and> cpar tp fs AND 3 = 0 \<and>
      h a = \<lparr>rb_parent_color = cpar tp fs OR colbit c, rb_right = p, rb_left = ptr l\<rparr> \<and>
      tr h l a \<and> cx h tp fs a)"
  by (auto dest: cx_al)

declare cx.simps(2,3) [simp del]

lemma rep_plug:
  "rep s (plug ctx t) =
     (rb_node s = ctop ctx (ptr t) \<and> tr (heap s) t (cpar 0 ctx) \<and> cx (heap s) 0 ctx (ptr t) \<and>
      cpar 0 ctx AND 3 = 0 \<and>
      dst (nodes t) \<and> dst (cnodes ctx) \<and> dj (nodes t) (cnodes ctx) \<and> dj (cnodes ctx) (nodes t))"
  by (auto simp add: rep_def tr_plug distinct_plug nin_def dj_def dst_def dest: cx_al)

lemma rep_dst: "rep s t = (rb_node s = ptr t \<and> tr (heap s) t 0 \<and> dst (nodes t))"
  by (simp add: rep_def dst_def)

lemmas prim_defs = rd_def wr_def get_left_def get_right_def get_pc_def set_left_def set_right_def set_pc_def
  rb_color_def rb_is_red_def rb_is_black_def rb_parent_def rb_set_parent_def rb_set_parent_color_def
  rb_set_black_def rb_red_parent_def rb__is_black_def rb__is_red_def

lemma color_neq [simp]: "(c \<noteq> Red) = (c = Black)" "(c \<noteq> Black) = (c = Red)"
  by (cases c; simp)+

lemma invh_plug: "invh (plug ctx t) = (invh t \<and> invhc (bh t) ctx)"
proof (induction ctx arbitrary: t)
  case Nil
  then show ?case by simp
next
  case (Cons f fs)
  show ?case by (cases f) (auto simp add: Cons.IH)
qed

lemma invc_plug: "invc (plug ctx t) = (invc t \<and> invcc (color_of t) ctx)"
  by (induction "color_of t" ctx arbitrary: t rule: invcc.induct) auto

lemma color_fill [simp]: "color_of (fill f t) = fcol f"
  by (cases f) auto

lemma color_plug: "color_of (plug ctx t) = ccol ctx (color_of t)"
  by (induction ctx arbitrary: t) auto

lemma nodes_plug: "nodes (plug ctx t) = cpre ctx @ nodes t @ cpost ctx"
  by (induction ctx arbitrary: t rule: cpre.induct) auto

lemma rbt_plug:
  "rbt (plug ctx t) = (ccol ctx (color_of t) = Black \<and> invc t \<and> invcc (color_of t) ctx \<and> invh t \<and> invhc (bh t) ctx)"
  by (auto simp add: rbt_def invh_plug invc_plug color_plug)

lemma paint_black [simp]: "color_of t = Black \<Longrightarrow> paint Black t = t"
  by (cases t) auto

lemma invcc_black_frame: "fcol f = Black \<Longrightarrow> invcc hc (f # fs) = invcc Black (f # fs)"
  by (cases f) auto

section \<open>Insertion fixup\<close>

lemmas exec_defs = rb__insert_body_def prim_defs rb__rotate_set_parents_def change_child_chg

lemma insert_root:
  assumes "rep s t" "t \<noteq> Leaf"
  shows "\<exists>s'. rb__insert_body (ptr t) 0 s = Some (Break s') \<and> rep s' (paint Black t)"
  using assms
  apply (cases t)
  apply (simp_all add: rep_dst)
  apply (simp_all add: exec_defs)
  done

lemma insert_black_parent:
  assumes "rep s (plug (f # rest) t)" "fcol f = Black"
  shows "rb__insert_body (ptr t) (faddr f) s = Some (Break s)"
  using assms
  apply (cases f)
  apply (simp_all add: rep_plug)
  apply (simp_all add: exec_defs)
  done

lemma insert_case1_L:
  assumes "rep s (plug (f # LF g Black (Node ul u Red ur) # rest) t)" "fcol f = Red" "t \<noteq> Leaf"
  shows "\<exists>s'. rb__insert_body (ptr t) (faddr f) s = Some (Continue g (cpar 0 rest) s') \<and>
     rep s' (plug rest (Node (fill (fpaint Black f) t) g Red (Node ul u Black ur)))"
  using assms
  apply (cases t; cases f)
  apply (simp_all add: rep_plug)
  apply (simp_all add: exec_defs)
  done

lemma insert_case1_R:
  assumes "rep s (plug (f # RF (Node ul u Red ur) g Black # rest) t)" "fcol f = Red" "t \<noteq> Leaf"
  shows "\<exists>s'. rb__insert_body (ptr t) (faddr f) s = Some (Continue g (cpar 0 rest) s') \<and>
     rep s' (plug rest (Node (Node ul u Black ur) g Red (fill (fpaint Black f) t)))"
  using assms
  apply (cases t; cases f)
  apply (simp_all add: rep_plug)
  apply (simp_all add: exec_defs)
  done

lemma insert_case3_L:
  assumes "rep s (plug (LF p Red sib # LF g gc u # rest) t)" "color_of u = Black" "t \<noteq> Leaf"
  shows "\<exists>s'. rb__insert_body (ptr t) p s = Some (Break s') \<and>
     rep s' (plug rest (Node t p gc (Node (paint Black sib) g Red u)))"
  using assms
  apply (cases t; cases u; cases sib)
  apply (simp_all add: rep_plug)
  apply (simp_all add: exec_defs cx_chg[where old=g] root_chg[where old=g])
  done

lemma insert_case23_L:
  assumes "rep s (plug (RF sib p Red # LF g gc u # rest) (Node l n c r))" "color_of u = Black"
  shows "\<exists>s'. rb__insert_body n p s = Some (Break s') \<and>
     rep s' (plug rest (Node (Node sib p Red (paint Black l)) n gc (Node (paint Black r) g Red u)))"
  using assms
  apply (cases l; cases u; cases r)
  apply (simp_all add: rep_plug)
  apply (simp_all add: exec_defs cx_chg[where old=g] root_chg[where old=g])
  done

lemma insert_case3_R:
  assumes "rep s (plug (RF sib p Red # RF u g gc # rest) t)" "color_of u = Black" "t \<noteq> Leaf"
  shows "\<exists>s'. rb__insert_body (ptr t) p s = Some (Break s') \<and>
     rep s' (plug rest (Node (Node u g Red (paint Black sib)) p gc t))"
  using assms
  apply (cases t; cases u; cases sib)
  apply (simp_all add: rep_plug)
  apply (simp_all add: exec_defs cx_chg[where old=g] root_chg[where old=g])
  done

lemma insert_case23_R:
  assumes "rep s (plug (LF p Red sib # RF u g gc # rest) (Node l n c r))" "color_of u = Black"
  shows "\<exists>s'. rb__insert_body n p s = Some (Break s') \<and>
     rep s' (plug rest (Node (Node u g Red (paint Black l)) n gc (Node (paint Black r) p Red sib)))"
  using assms
  apply (cases l; cases u; cases r)
  apply (simp_all add: rep_plug)
  apply (simp_all add: exec_defs cx_chg[where old=g] root_chg[where old=g])
  done

lemma loop_break: "rb__insert_body n p s = Some (Break s') \<Longrightarrow> rb__insert_loop n p s = Some s'"
  by (subst rb__insert_loop.simps) simp

lemma loop_continue:
  "rb__insert_body n p s = Some (Continue n' p' s') \<Longrightarrow> rb__insert_loop n p s = rb__insert_loop n' p' s'"
  by (subst rb__insert_loop.simps) simp

lemma insert_step:
  assumes "ins_inv s ctx t"
  shows "(\<exists>s' T'. rb__insert_body (ptr t) (cpar 0 ctx) s = Some (Break s') \<and> rep s' T' \<and> rbt T' \<and>
            nodes T' = nodes (plug ctx t)) \<or>
         (\<exists>s' ctx' t'. rb__insert_body (ptr t) (cpar 0 ctx) s = Some (Continue (ptr t') (cpar 0 ctx') s') \<and>
            ins_inv s' ctx' t' \<and> length ctx' < length ctx \<and>
            nodes (plug ctx' t') = nodes (plug ctx t))"
proof -
  from assms have prems: "rep s (plug ctx t)" "t \<noteq> Leaf" "color_of t = Red" "invc t" "invh t"
    "invhc (bh t) ctx" "invcc Black ctx" "ccol ctx Black = Black"
    by (simp_all add: ins_inv_def)
  show ?thesis
  proof (cases ctx)
    case Nil
    from prems Nil obtain s' where s': "rb__insert_body (ptr t) 0 s = Some (Break s')" "rep s' (paint Black t)"
      using insert_root [of s t] by auto
    have "rbt (paint Black t)" using prems by (cases t) (auto simp add: rbt_def)
    moreover have "nodes (paint Black t) = nodes t" by (cases t) auto
    ultimately show ?thesis using s' Nil by auto
  next
    case (Cons f rest)
    show ?thesis
    proof (cases "fcol f")
      case Black
      have b: "rb__insert_body (ptr t) (faddr f) s = Some (Break s)"
        using insert_black_parent [of s f rest t] prems Cons Black by simp
      have "rbt (plug ctx t)"
        using prems Cons Black by (cases f) (auto simp add: rbt_plug)
      then show ?thesis using b prems(1) Cons by auto
    next
      case Red
      show ?thesis
      proof (cases rest)
        case Nil
        then show ?thesis using prems Cons Red by simp
      next
        case (Cons f2 rest2)
        note ctx = \<open>ctx = f # rest\<close> Cons
        show ?thesis
        proof (cases f2)
          case (LF g gc u)
          have gc: "gc = Black" using prems ctx Red LF by (cases f) auto
          show ?thesis
          proof (cases "color_of u")
            case uRed: Red
            then obtain ul ua ur where u: "u = Node ul ua Red ur" by (cases u) auto
            let ?t' = "Node (fill (fpaint Black f) t) g Red (Node ul ua Black ur)"
            from insert_case1_L [of s f g ul ua ur rest2 t] prems ctx Red LF gc u
            obtain s1 where s1: "rb__insert_body (ptr t) (faddr f) s = Some (Continue g (cpar 0 rest2) s1)"
              "rep s1 (plug rest2 ?t')" by auto
            have "ins_inv s1 rest2 ?t'"
              using prems ctx Red LF gc u s1 by (cases f) (auto simp add: ins_inv_def)
            moreover have "nodes (plug rest2 ?t') = nodes (plug ctx t)"
              using ctx LF u by (cases f) (auto simp add: nodes_plug)
            moreover have "ptr ?t' = g" by simp
            ultimately show ?thesis using s1 ctx by (intro disjI2 exI [of _ s1] exI [of _ rest2] exI [of _ ?t']) simp
          next
            case uBlack: Black
            show ?thesis
            proof (cases f)
              case f: (LF p pc sib)
              let ?T = "plug rest2 (Node t p gc (Node (paint Black sib) g Red u))"
              from insert_case3_L [of s p sib g gc u rest2 t] prems ctx Red LF uBlack f
              obtain s1 where s1: "rb__insert_body (ptr t) p s = Some (Break s1)" "rep s1 ?T" by auto
              have "rbt ?T" using prems ctx Red LF gc uBlack f by (auto simp add: rbt_plug)
              moreover have "nodes ?T = nodes (plug ctx t)"
                using prems ctx Red LF gc uBlack f by (auto simp add: nodes_plug)
              ultimately show ?thesis using s1 ctx f by auto
            next
              case f: (RF sib p pc)
              obtain l n c r where t: "t = Node l n c r" using prems by (cases t) auto
              let ?T = "plug rest2 (Node (Node sib p Red (paint Black l)) n gc (Node (paint Black r) g Red u))"
              from insert_case23_L [of s sib p g gc u rest2 l n c r] prems ctx Red LF uBlack f t
              obtain s1 where s1: "rb__insert_body n p s = Some (Break s1)" "rep s1 ?T" by auto
              have "rbt ?T" using prems ctx Red LF gc uBlack f t by (auto simp add: rbt_plug)
              moreover have "nodes ?T = nodes (plug ctx t)"
                using prems ctx Red LF gc uBlack f t by (auto simp add: nodes_plug)
              ultimately show ?thesis using s1 ctx f t by auto
            qed
          qed
        next
          case (RF u g gc)
          have gc: "gc = Black" using prems ctx Red RF by (cases f) auto
          show ?thesis
          proof (cases "color_of u")
            case uRed: Red
            then obtain ul ua ur where u: "u = Node ul ua Red ur" by (cases u) auto
            let ?t' = "Node (Node ul ua Black ur) g Red (fill (fpaint Black f) t)"
            from insert_case1_R [of s f ul ua ur g rest2 t] prems ctx Red RF gc u
            obtain s1 where s1: "rb__insert_body (ptr t) (faddr f) s = Some (Continue g (cpar 0 rest2) s1)"
              "rep s1 (plug rest2 ?t')" by auto
            have "ins_inv s1 rest2 ?t'"
              using prems ctx Red RF gc u s1 by (cases f) (auto simp add: ins_inv_def)
            moreover have "nodes (plug rest2 ?t') = nodes (plug ctx t)"
              using ctx RF u by (cases f) (auto simp add: nodes_plug)
            moreover have "ptr ?t' = g" by simp
            ultimately show ?thesis using s1 ctx by (intro disjI2 exI [of _ s1] exI [of _ rest2] exI [of _ ?t']) simp
          next
            case uBlack: Black
            show ?thesis
            proof (cases f)
              case f: (RF sib p pc)
              let ?T = "plug rest2 (Node (Node u g Red (paint Black sib)) p gc t)"
              from insert_case3_R [of s sib p u g gc rest2 t] prems ctx Red RF uBlack f
              obtain s1 where s1: "rb__insert_body (ptr t) p s = Some (Break s1)" "rep s1 ?T" by auto
              have "rbt ?T" using prems ctx Red RF gc uBlack f by (auto simp add: rbt_plug)
              moreover have "nodes ?T = nodes (plug ctx t)"
                using prems ctx Red RF gc uBlack f by (auto simp add: nodes_plug)
              ultimately show ?thesis using s1 ctx f by auto
            next
              case f: (LF p pc sib)
              obtain l n c r where t: "t = Node l n c r" using prems by (cases t) auto
              let ?T = "plug rest2 (Node (Node u g Red (paint Black l)) n gc (Node (paint Black r) p Red sib))"
              from insert_case23_R [of s p sib u g gc rest2 l n c r] prems ctx Red RF uBlack f t
              obtain s1 where s1: "rb__insert_body n p s = Some (Break s1)" "rep s1 ?T" by auto
              have "rbt ?T" using prems ctx Red RF gc uBlack f t by (auto simp add: rbt_plug)
              moreover have "nodes ?T = nodes (plug ctx t)"
                using prems ctx Red RF gc uBlack f t by (auto simp add: nodes_plug)
              ultimately show ?thesis using s1 ctx f t by auto
            qed
          qed
        qed
      qed
    qed
  qed
qed

lemma insert_loop_ok:
  "ins_inv s ctx t \<Longrightarrow>
   \<exists>s' T'. rb__insert_loop (ptr t) (cpar 0 ctx) s = Some s' \<and> rep s' T' \<and> rbt T' \<and>
      nodes T' = nodes (plug ctx t)"
proof (induction "length ctx" arbitrary: ctx t s rule: less_induct)
  case less
  from insert_step [OF less.prems] show ?case
  proof (elim disjE exE conjE)
    fix s' T'
    assume "rb__insert_body (ptr t) (cpar 0 ctx) s = Some (Break s')" "rep s' T'" "rbt T'"
      "nodes T' = nodes (plug ctx t)"
    then show ?thesis by (auto simp add: loop_break)
  next
    fix s' ctx' t'
    assume a: "rb__insert_body (ptr t) (cpar 0 ctx) s = Some (Continue (ptr t') (cpar 0 ctx') s')"
      "ins_inv s' ctx' t'" "length ctx' < length ctx" "nodes (plug ctx' t') = nodes (plug ctx t)"
    from less.hyps [OF a(3) a(2)] a(1,4) show ?thesis by (auto simp add: loop_continue)
  qed
qed

lemma insert_head_inv:
  "ins_inv s ctx t \<Longrightarrow> rb__insert_head k (ptr t) (cpar 0 ctx) s = Some (nk, pk, sk) \<Longrightarrow>
   \<exists>ctx' t'. ins_inv sk ctx' t' \<and> nk = ptr t' \<and> pk = cpar 0 ctx'"
proof (induction k arbitrary: s ctx t)
  case 0
  then show ?case by auto
next
  case (Suc k)
  from insert_step [OF Suc.prems(1)] Suc.prems(2) obtain s' ctx' t' where
    a: "rb__insert_body (ptr t) (cpar 0 ctx) s = Some (Continue (ptr t') (cpar 0 ctx') s')" "ins_inv s' ctx' t'"
    by (auto split: option.splits loop.splits)
  with Suc.prems(2) have "rb__insert_head k (ptr t') (cpar 0 ctx') s' = Some (nk, pk, sk)" by simp
  from Suc.IH [OF a(2) this] show ?case .
qed

lemma depth_plug:
  "rep s (plug ctx t) \<Longrightarrow> t \<noteq> Leaf \<Longrightarrow> rb_depth s (ptr t) = Some (length ctx)"
proof (induction ctx arbitrary: t)
  case Nil
  then have "rb_parent s (ptr t) = Some 0"
    by (cases t) (auto simp add: rep_dst prim_defs)
  then show ?case
    by (subst rb_depth.simps) simp
next
  case (Cons f fs)
  have "rb_depth s (ptr (fill f t)) = Some (length fs)"
    using Cons.prems by (intro Cons.IH) (cases f; auto)+
  moreover have "rb_parent s (ptr t) = Some (faddr f)" "faddr f \<noteq> 0"
    using Cons.prems by (cases t; cases f; auto simp add: rep_plug prim_defs)+
  ultimately show ?case
    by (subst rb_depth.simps) simp
qed


lemma insert_case1_Continue:
  "rb__insert_body n p s = Some (Continue n' p' s') \<Longrightarrow> rb__insert_case1 p s = Some True"
  unfolding rb__insert_body_def rb__insert_case1_def
  by (auto split: if_splits Option.bind_splits prod.splits)

lemma insert_case1_Break:
  "rb__insert_body n p s = Some (Break s') \<Longrightarrow> rb__insert_case1 p s = Some False"
  unfolding rb__insert_body_def rb__insert_case1_def
  by (auto split: if_splits Option.bind_splits prod.splits)

lemma example_rep: "rep example_state (plug example_ctx (Node Leaf 4 Red Leaf))"
  by (simp add: example_state_def example_ctx_def rep_def RB_RED_def RB_BLACK_def)

lemma example_rbt: "rbt (plug example_ctx Leaf)"
  by (simp add: example_ctx_def rbt_def)

lemma example_heads: "rb__insert_heads 0 4 example_state = Some (4, 8, example_state)"
  by (simp add: rb__insert_heads_def example_state_def prim_defs)

lemma link_node_rep:
  assumes "rep s (plug ctx Leaf)" "n \<noteq> 0" "n AND 3 = 0" "n \<notin> set (nodes (plug ctx Leaf))"
  shows "\<exists>s'. rb_link_node n (cpar 0 ctx) (side_of ctx) s = Some s' \<and>
           rep s' (plug ctx (Node Leaf n Red Leaf))"
proof (cases ctx)
  case Nil
  then show ?thesis using assms
    by (simp add: rep_dst rb_link_node_def prim_defs)
next
  case (Cons f fs)
  have "nin n (cnodes ctx)" using assms(4) by (simp add: nin_def set_nodes_plug)
  then show ?thesis using assms(1-3) Cons
    apply (cases f)
    apply (simp_all add: rep_plug)
    apply (simp_all add: rb_link_node_def prim_defs)
    done
qed

section \<open>Replacement\<close>

lemma replace_rep:
  assumes "rep s (plug ctx (Node l v c r))" "new \<noteq> 0" "new AND 3 = 0"
    "nin new (nodes (plug ctx (Node l v c r)))"
  shows "\<exists>s'. replace v new s = Some s' \<and> heap s' new = heap s v \<and>
           rep s' (plug ctx (Node l new c r))"
proof -
  have n: "nin new (nodes l)" "nin new (nodes r)" "nin new (cnodes ctx)" "new \<noteq> v" "v \<noteq> new"
    using assms(4) by (auto simp add: nin_def set_nodes_plug)
  show ?thesis
    using assms(1-3) n
    apply (cases l; cases r)
    apply (simp_all add: rep_plug)
    apply (simp_all add: replace_def prim_defs change_child_chg cx_chg[where old=v] root_chg[where old=v])
    done
qed

lemma map_replace_id: "a \<notin> set xs \<Longrightarrow> map (\<lambda>x. if x = a then b else x) xs = xs"
  by (induction xs) auto

lemma replace_nodes:
  assumes "distinct (nodes (plug ctx (Node l v c r)))"
  shows "nodes (plug ctx (Node l new c r)) =
     map (\<lambda>a. if a = v then new else a) (nodes (plug ctx (Node l v c r)))"
proof -
  have "v \<notin> set (cpre ctx)" "v \<notin> set (cpost ctx)" "v \<notin> set (nodes l)" "v \<notin> set (nodes r)"
    using assms by (auto simp add: nodes_plug)
  then show ?thesis by (simp add: nodes_plug map_replace_id)
qed

lemma example2_rep: "rep example2_state (plug example2_ctx (Node Leaf 8 Red Leaf))"
  by (simp add: example2_state_def example2_ctx_def rep_def RB_RED_def RB_BLACK_def)

lemma example2_rbt: "rbt (plug example2_ctx (Node Leaf 8 Red Leaf))"
  by (simp add: example2_ctx_def rbt_def)

section \<open>Unlinking\<close>

lemmas unl_defs = rb__erase_def prim_defs change_child_chg

lemma erase_leaf:
  assumes "rep s (plug ctx (Node Leaf n c Leaf))"
  shows "\<exists>s'. rb__erase n s = Some (if c = Black then cpar 0 ctx else 0, s') \<and> rep s' (plug ctx Leaf)"
  using assms
  apply (cases c)
  apply (simp_all add: rep_plug)
  apply (simp_all add: unl_defs cx_chg[where old=n] root_chg[where old=n])
  done

lemma erase_right_only:
  assumes "rep s (plug ctx (Node Leaf n c (Node rl ra rc rr)))"
  shows "\<exists>s'. rb__erase n s = Some (0, s') \<and> rep s' (plug ctx (Node rl ra c rr))"
  using assms
  apply (simp_all add: rep_plug)
  apply (simp_all add: unl_defs cx_chg[where old=n] root_chg[where old=n])
  done

lemma erase_left_only:
  assumes "rep s (plug ctx (Node (Node ll la lc lr) n c Leaf))"
  shows "\<exists>s'. rb__erase n s = Some (0, s') \<and> rep s' (plug ctx (Node ll la c lr))"
  using assms
  apply (simp_all add: rep_plug)
  apply (simp_all add: unl_defs cx_chg[where old=n] root_chg[where old=n])
  done

lemma erase_succ_child:
  assumes "rep s (plug ctx (Node (Node ll la lc lr) n c (Node Leaf ra rc rr)))"
  shows "\<exists>s'. rb__erase n s = Some (if rr = Leaf \<and> rc = Black then ra else 0, s') \<and>
     rep s' (plug ctx (Node (Node ll la lc lr) ra c (paint Black rr)))"
  using assms
  apply (cases rr; cases rc)
  apply (simp_all add: rep_plug)
  apply (simp_all add: unl_defs cx_chg[where old=n] root_chg[where old=n])
  done



lemma cpar_append: "cpar tp (fs @ gs) = cpar (cpar tp gs) fs"
  by (cases fs) auto

lemma ctop_append: "ctop (fs @ gs) p = ctop gs (ctop fs p)"
  by (induction fs arbitrary: p) auto

lemma cx_append: "cx h tp (fs @ gs) p = (cx h (cpar tp gs) fs p \<and> cx h tp gs (ctop fs p))"
  by (induction h "cpar tp gs" fs p rule: cx.induct) (auto simp add: cx.simps cpar_append)

lemma nin_nodes_plug [simp]: "nin a (nodes (plug ctx t)) = (nin a (nodes t) \<and> nin a (cnodes ctx))"
  by (auto simp add: nin_def set_nodes_plug)

lemma dj_nodes_plug [simp]:
  "dj (nodes (plug ctx t)) ys = (dj (nodes t) ys \<and> dj (cnodes ctx) ys)"
  "dj xs (nodes (plug ctx t)) = (dj xs (nodes t) \<and> dj xs (cnodes ctx))"
  by (auto simp add: dj_def set_nodes_plug)

lemma dst_nodes_plug [simp]:
  "dst (nodes (plug ctx t)) =
     (dst (nodes t) \<and> dst (cnodes ctx) \<and> dj (nodes t) (cnodes ctx) \<and> dj (cnodes ctx) (nodes t))"
  by (auto simp add: dst_def dj_def distinct_plug)

lemma cnodes_append [simp]: "cnodes (fs @ gs) = cnodes fs @ cnodes gs"
  by (induction fs) auto

lemma ctop_nz: "cx h tp fs p \<Longrightarrow> p \<noteq> 0 \<Longrightarrow> ctop fs p \<noteq> 0"
  by (induction h tp fs p rule: cx.induct) (auto simp add: cx.simps)

lemma leftmost_loop:
  "cx (heap s) tp spine sa \<Longrightarrow> list_all is_LF spine \<Longrightarrow> spine \<noteq> [] \<Longrightarrow> sa \<noteq> 0 \<Longrightarrow>
   rb_left (heap s sa) = 0 \<Longrightarrow>
   rb__erase_leftmost (ctop spine sa) (ctop (butlast spine) sa) s = Some (faddr (hd spine), sa)"
proof (induction spine arbitrary: tp rule: rev_induct)
  case Nil
  then show ?case by simp
next
  case (snoc f fs)
  from snoc.prems(2) obtain a c r where f: "f = LF a c r" by (cases f) auto
  have cx: "cx (heap s) a fs sa" "a \<noteq> 0" "rb_left (heap s a) = ctop fs sa"
    using snoc.prems(1) f by (auto simp add: cx_append cx.simps)
  show ?case
  proof (cases "fs = []")
    case True
    then show ?thesis using snoc.prems f
      by (subst rb__erase_leftmost.simps) (simp add: prim_defs ctop_append)
  next
    case False
    then obtain gs g where fs: "fs = gs @ [g]" by (cases fs rule: rev_cases) auto
    obtain a2 c2 r2 where g: "g = LF a2 c2 r2" using snoc.prems(2) fs by (cases g) auto
    have ih: "rb__erase_leftmost (ctop fs sa) (ctop (butlast fs) sa) s = Some (faddr (hd fs), sa)"
      using snoc.IH [OF cx(1)] snoc.prems False by simp
    have a2: "ctop fs sa = a2" "a2 \<noteq> 0" "rb_left (heap s a2) = ctop (butlast fs) sa"
      using cx(1) fs g by (auto simp add: ctop_append cx_append cx.simps)
    have "cx (heap s) (faddr g) gs sa"
      using cx(1) fs by (simp add: cx_append)
    from ctop_nz [OF this snoc.prems(4)] have nz: "ctop (butlast fs) sa \<noteq> 0"
      using fs by simp
    show ?thesis
      using ih a2 nz f False
      by (subst rb__erase_leftmost.simps) (simp add: prim_defs ctop_append)
  qed
qed


lemma erase_succ_deep1:
  assumes "rep s (plug ctx (Node (Node ll la lc lr) n c (Node (Node Leaf sa sc sr) pa pc pr)))"
  shows "\<exists>s'. rb__erase n s = Some (if sr = Leaf \<and> sc = Black then pa else 0, s') \<and>
     rep s' (plug ctx (Node (Node ll la lc lr) sa c (Node (paint Black sr) pa pc pr)))"
proof -
  have loop: "rb__erase_leftmost pa sa s = Some (pa, sa)"
    using assms
    by (subst rb__erase_leftmost.simps) (simp add: rep_plug prim_defs)
  show ?thesis
    using assms
    apply (cases sr; cases sc)
    apply (simp_all add: rep_plug)
    apply (simp_all add: unl_defs loop cx_chg[where old=n] root_chg[where old=n])
    done
qed

lemma cx_chg_other [simp]:
  "dj (cnodes fs) (cnodes ctx) \<Longrightarrow> cx (heap (chg ctx n s)) tp fs p = cx (heap s) tp fs p"
  apply (cases ctx) apply simp
  subgoal for f gs by (cases f) auto
  done

lemma cpar_snoc [simp]: "cpar tp (fs @ [f]) = cpar (faddr f) fs"
  by (simp add: cpar_append)

lemma erase_succ_deep2:
  assumes "rep s (plug ctx (Node (Node ll la lc lr) n c
      (plug (LF pa pc pr # mid @ [LF ra rc rr]) (Node Leaf sa sc sr))))" "list_all is_LF mid"
  shows "\<exists>s'. rb__erase n s = Some (if sr = Leaf \<and> sc = Black then pa else 0, s') \<and>
     rep s' (plug ctx (Node (Node ll la lc lr) sa c
        (plug (LF pa pc pr # mid @ [LF ra rc rr]) (paint Black sr))))"
proof -
  let ?spine = "LF pa pc pr # mid @ [LF ra rc rr]"
  have r: "tr (heap s) (plug ?spine (Node Leaf sa sc sr)) n" "n AND 3 = 0"
    using assms(1) by (simp_all add: rep_plug del: plug.simps)
  then have c: "cx (heap s) n ?spine sa" "sa \<noteq> 0" "rb_left (heap s sa) = 0"
    by (simp_all add: tr_plug del: plug.simps)
  have "rb__erase_leftmost (ctop ?spine sa) (ctop (butlast ?spine) sa) s = Some (faddr (hd ?spine), sa)"
    using c assms(2) by (intro leftmost_loop) simp_all
  then have loop: "rb__erase_leftmost ra (ctop mid pa) s = Some (pa, sa)"
    by (simp add: ctop_append butlast_append)
  have "cx (heap s) ra mid pa" "pa \<noteq> 0"
    using c(1) r(2) by (simp_all add: cx_append)
  then have nz: "ctop mid pa \<noteq> 0" by (rule ctop_nz)
  show ?thesis
    using assms(1) nz r(2)
    by (cases sr; cases sc;
        simp add: rep_plug tr_plug cx_append ctop_append del: plug.simps;
        simp add: unl_defs loop cx_chg[where old=n] root_chg[where old=n] del: plug.simps)
qed

section \<open>Color fixup after unlinking\<close>

lemmas fix_defs = rb__erase_color_left_case1_def rb__erase_color_left_rest_def
  rb__erase_color_right_case1_def rb__erase_color_right_rest_def
  prim_defs rb__rotate_set_parents_def change_child_chg

lemma bind_weak_cong: "m = m' \<Longrightarrow> Option.bind m f = Option.bind m' f"
  by simp

lemma erase_color_case1_L:
  assumes "rep s (plug (LF p pc (Node (Node xll xla xlc xlr) xa xc xr) # rest) t)"
  shows "\<exists>s'. rb__erase_color_left_case1 p xa s = Some (xla, s') \<and>
     rep s' (plug (LF p Red (Node xll xla Black xlr) # LF xa pc xr # rest) t)"
  using assms
  apply (simp_all add: rep_plug)
  apply (simp_all add: fix_defs cx_chg[where old=p] root_chg[where old=p] cong: bind_weak_cong)
  done

lemma erase_color_case2_L:
  assumes "rep s (plug (LF p pc (Node xl xa xc xr) # rest) t)" "color_of xl = Black" "color_of xr = Black"
  shows "\<exists>s'. rb__erase_color_left_rest p xa s =
        Some (if pc = Red \<or> rest = [] then Break s' else Continue p (cpar 0 rest) s') \<and>
     rep s' (plug rest (Node t p Black (Node xl xa Red xr)))"
proof (cases rest)
  case Nil
  then show ?thesis
    using assms
    apply (cases xl; cases xr; cases pc)
    apply (simp_all add: rep_dst)
    apply (simp_all add: fix_defs cong: bind_weak_cong)
    done
next
  case (Cons f fs)
  then show ?thesis
    using assms
    apply (cases xl; cases xr; cases pc; cases f)
    apply (simp_all add: rep_plug)
    apply (simp_all add: fix_defs cong: bind_weak_cong)
    done
qed

lemma erase_color_case34_L:
  assumes "rep s (plug (LF p pc (Node (Node xll xla Red xlr) xa xc xr) # rest) t)" "color_of xr = Black"
  shows "\<exists>s'. rb__erase_color_left_rest p xa s = Some (Break s') \<and>
     rep s' (plug rest (Node (Node t p Black xll) xla pc (Node (paint Black xlr) xa Black xr)))"
  using assms
  apply (cases xr; cases xll; cases xlr)
  apply (simp_all add: rep_plug)
  apply (simp_all add: fix_defs cx_chg[where old=p] root_chg[where old=p] cong: bind_weak_cong)
  done

lemma erase_color_case4_L:
  assumes "rep s (plug (LF p pc (Node xl xa xc (Node xrl xra Red xrr)) # rest) t)"
  shows "\<exists>s'. rb__erase_color_left_rest p xa s = Some (Break s') \<and>
     rep s' (plug rest (Node (Node t p Black xl) xa pc (Node xrl xra Black xrr)))"
  using assms
  apply (cases xl)
  apply (simp_all add: rep_plug)
  apply (simp_all add: fix_defs cx_chg[where old=p] root_chg[where old=p] cong: bind_weak_cong)
  done

lemma erase_color_body_L:
  assumes "rep s (plug (LF p pc (Node xl xa xc xr) # rest) t)"
  shows "rb__erase_color_body (ptr t) p s =
     (if xc = Red then rb__erase_color_left_case1 p xa s \<bind> (\<lambda>(sib, s1). rb__erase_color_left_rest p sib s1)
      else rb__erase_color_left_rest p xa s)"
  using assms
  apply (cases t; cases xc)
  apply (simp_all add: rep_plug)
  apply (simp_all add: rb__erase_color_body_def prim_defs cong: bind_weak_cong)
  done


lemma erase_color_case1_R:
  assumes "rep s (plug (RF (Node xl xa xc (Node xrl xra xrc xrr)) p pc # rest) t)"
  shows "\<exists>s'. rb__erase_color_right_case1 p xa s = Some (xra, s') \<and>
     rep s' (plug (RF (Node xrl xra Black xrr) p Red # RF xl xa pc # rest) t)"
  using assms
  apply (simp_all add: rep_plug)
  apply (simp_all add: fix_defs cx_chg[where old=p] root_chg[where old=p] cong: bind_weak_cong)
  done

lemma erase_color_case2_R:
  assumes "rep s (plug (RF (Node xl xa xc xr) p pc # rest) t)" "color_of xl = Black" "color_of xr = Black"
  shows "\<exists>s'. rb__erase_color_right_rest p xa s =
        Some (if pc = Red \<or> rest = [] then Break s' else Continue p (cpar 0 rest) s') \<and>
     rep s' (plug rest (Node (Node xl xa Red xr) p Black t))"
proof (cases rest)
  case Nil
  then show ?thesis
    using assms
    apply (cases xl; cases xr; cases pc)
    apply (simp_all add: rep_dst)
    apply (simp_all add: fix_defs cong: bind_weak_cong)
    done
next
  case (Cons f fs)
  then show ?thesis
    using assms
    apply (cases xl; cases xr; cases pc; cases f)
    apply (simp_all add: rep_plug)
    apply (simp_all add: fix_defs cong: bind_weak_cong)
    done
qed

lemma erase_color_case34_R:
  assumes "rep s (plug (RF (Node xl xa xc (Node xrl xra Red xrr)) p pc # rest) t)" "color_of xl = Black"
  shows "\<exists>s'. rb__erase_color_right_rest p xa s = Some (Break s') \<and>
     rep s' (plug rest (Node (Node xl xa Black (paint Black xrl)) xra pc (Node xrr p Black t)))"
  using assms
  apply (cases xl; cases xrr; cases xrl)
  apply (simp_all add: rep_plug)
  apply (simp_all add: fix_defs cx_chg[where old=p] root_chg[where old=p] cong: bind_weak_cong)
  done

lemma erase_color_case4_R:
  assumes "rep s (plug (RF (Node (Node xll xla Red xlr) xa xc xr) p pc # rest) t)"
  shows "\<exists>s'. rb__erase_color_right_rest p xa s = Some (Break s') \<and>
     rep s' (plug rest (Node (Node xll xla Black xlr) xa pc (Node xr p Black t)))"
  using assms
  apply (cases xr)
  apply (simp_all add: rep_plug)
  apply (simp_all add: fix_defs cx_chg[where old=p] root_chg[where old=p] cong: bind_weak_cong)
  done

lemma erase_color_body_R:
  assumes "rep s (plug (RF (Node xl xa xc xr) p pc # rest) t)"
  shows "rb__erase_color_body (ptr t) p s =
     (if xc = Red then rb__erase_color_right_case1 p xa s \<bind> (\<lambda>(sib, s1). rb__erase_color_right_rest p sib s1)
      else rb__erase_color_right_rest p xa s)"
  using assms
  apply (cases t; cases xc)
  apply (simp_all add: rep_plug)
  apply (simp_all add: rb__erase_color_body_def prim_defs cong: bind_weak_cong)
  done

lemma invcc_mono: "invcc c ctx \<Longrightarrow> invcc Black ctx"
  apply (cases ctx) apply simp
  subgoal for f fs by (cases f) auto
  done

lemma ccol_nonempty: "ctx \<noteq> [] \<Longrightarrow> ccol ctx c = ccol ctx c'"
  by (cases ctx) auto

lemma ccol_red: "ccol ctx Red = Black \<Longrightarrow> ccol ctx c = Black"
  by (cases ctx) auto

lemma bh_pos_Node: "bh t = Suc k \<Longrightarrow> \<exists>l a c r. t = Node l a c r"
  by (cases t) auto

lemma color_red_Node: "color_of t = Red \<Longrightarrow> \<exists>l a r. t = Node l a Red r"
  by (cases t) auto

lemma cpar_nz: "rep s (plug ctx t) \<Longrightarrow> ctx \<noteq> [] \<Longrightarrow> cpar 0 ctx \<noteq> 0"
  by (cases ctx rule: cnodes.cases) (auto simp add: rep_plug elim: faddr.elims)

lemma del_step_L:
  assumes "del_inv s (LF p pc w # rest) t"
  shows "(\<exists>s' T'. rb__erase_color_body (ptr t) p s = Some (Break s') \<and> rep s' T' \<and> rbt T' \<and>
            nodes T' = nodes (plug (LF p pc w # rest) t)) \<or>
         (\<exists>s' t'. rb__erase_color_body (ptr t) p s = Some (Continue (ptr t') (cpar 0 rest) s') \<and>
            del_inv s' rest t' \<and> nodes (plug rest t') = nodes (plug (LF p pc w # rest) t))"
proof -
  from assms have inv: "rep s (plug (LF p pc w # rest) t)" "color_of t = Black" "invc t" "invh t"
    "bh w = Suc (bh t)" "invh w" "invhc (if pc = Black then Suc (Suc (bh t)) else Suc (bh t)) rest"
    "pc = Red \<longrightarrow> color_of w = Black" "invc w" "invcc pc rest" "ccol rest pc = Black"
    by (simp_all add: del_inv_def)
  from inv(5) obtain xl xa xc xr where w: "w = Node xl xa xc xr" by (auto dest: bh_pos_Node)
  note body = erase_color_body_L [OF inv(1) [unfolded w]]
  show ?thesis
  proof (cases xc)
    case Red
    have pc: "pc = Black" using inv(8) w Red by (cases pc) auto
    have "bh xl = Suc (bh t)" "color_of xl = Black" using inv w Red by auto
    then obtain xll xla xlr where xl: "xl = Node xll xla Black xlr" by (cases xl) auto
    from erase_color_case1_L [of s p pc xll xla Black xlr xa xc xr rest t] inv(1) w xl
    obtain s1 where s1: "rb__erase_color_left_case1 p xa s = Some (xla, s1)"
      "rep s1 (plug (LF p Red (Node xll xla Black xlr) # LF xa pc xr # rest) t)" by auto
    have b: "rb__erase_color_body (ptr t) p s = rb__erase_color_left_rest p xla s1"
      using body Red s1 by simp
    show ?thesis
    proof (cases "color_of xlr")
      case oB: Black
      show ?thesis
      proof (cases "color_of xll")
        case iB: Black
        let ?T = "plug (LF xa pc xr # rest) (Node t p Black (Node xll xla Red xlr))"
        from erase_color_case2_L [OF s1(2) iB oB]
        obtain s' where s': "rb__erase_color_left_rest p xla s1 = Some (Break s')" "rep s' ?T" by auto
        have "rbt ?T" using inv w Red pc xl oB iB by (auto simp add: rbt_plug)
        moreover have "nodes ?T = nodes (plug (LF p pc w # rest) t)"
          using w xl by (simp add: nodes_plug)
        ultimately show ?thesis using b s' by auto
      next
        case iR: Red
        then obtain a1 a2 a3 where xll: "xll = Node a1 a2 Red a3" by (auto dest: color_red_Node)
        let ?T = "plug (LF xa pc xr # rest) (Node (Node t p Black a1) a2 Red (Node (paint Black a3) xla Black xlr))"
        from erase_color_case34_L [of s1 p Red a1 a2 a3 xla Black xlr "LF xa pc xr # rest" t] s1(2) oB xll
        obtain s' where s': "rb__erase_color_left_rest p xla s1 = Some (Break s')" "rep s' ?T" by auto
        have "rbt ?T" using inv w Red pc xl xll oB by (auto simp add: rbt_plug)
        moreover have "nodes ?T = nodes (plug (LF p pc w # rest) t)"
          using w xl xll inv by (cases a3) (auto simp add: nodes_plug)
        ultimately show ?thesis using b s' by auto
      qed
    next
      case oR: Red
      then obtain a1 a2 a3 where xlr: "xlr = Node a1 a2 Red a3" by (auto dest: color_red_Node)
      let ?T = "plug (LF xa pc xr # rest) (Node (Node t p Black xll) xla Red (Node a1 a2 Black a3))"
      from erase_color_case4_L [of s1 p Red xll xla Black a1 a2 a3 "LF xa pc xr # rest" t] s1(2) xlr
      obtain s' where s': "rb__erase_color_left_rest p xla s1 = Some (Break s')" "rep s' ?T" by auto
      have "rbt ?T" using inv w Red pc xl xlr by (auto simp add: rbt_plug)
      moreover have "nodes ?T = nodes (plug (LF p pc w # rest) t)"
        using w xl xlr by (simp add: nodes_plug)
      ultimately show ?thesis using b s' by auto
    qed
  next
    case Black
    have b: "rb__erase_color_body (ptr t) p s = rb__erase_color_left_rest p xa s"
      using body Black by simp
    have bhx: "bh xl = bh t" "bh xr = bh t" "invh xl" "invh xr" "invc xl" "invc xr"
      using inv w Black by auto
    show ?thesis
    proof (cases "color_of xr")
      case oB: Black
      show ?thesis
      proof (cases "color_of xl")
        case iB: Black
        let ?t' = "Node t p Black (Node xl xa Red xr)"
        from erase_color_case2_L [OF inv(1) [unfolded w] iB oB]
        obtain s' where s': "rb__erase_color_left_rest p xa s =
            Some (if pc = Red \<or> rest = [] then Break s' else Continue p (cpar 0 rest) s')"
          "rep s' (plug rest ?t')" by auto
        have n: "nodes (plug rest ?t') = nodes (plug (LF p pc w # rest) t)"
          using w by (simp add: nodes_plug)
        show ?thesis
        proof (cases "pc = Red \<or> rest = []")
          case True
          have "rbt (plug rest ?t')"
            unfolding rbt_plug
            using inv w Black bhx oB iB True
            by (cases pc) (auto intro: invcc_mono ccol_red)
          then show ?thesis using b s' n True by auto
        next
          case False
          then have "del_inv s' rest ?t'"
            using inv w Black bhx oB iB s'(2) by (cases pc) (auto simp add: del_inv_def)
          moreover have "ptr ?t' = p" by simp
          ultimately show ?thesis using b s' n False
            by (intro disjI2 exI [of _ s'] exI [of _ ?t']) simp
        qed
      next
        case iR: Red
        then obtain a1 a2 a3 where xl: "xl = Node a1 a2 Red a3" by (auto dest: color_red_Node)
        let ?T = "plug rest (Node (Node t p Black a1) a2 pc (Node (paint Black a3) xa Black xr))"
        from erase_color_case34_L [of s p pc a1 a2 a3 xa xc xr rest t] inv(1) w oB xl
        obtain s' where s': "rb__erase_color_left_rest p xa s = Some (Break s')" "rep s' ?T" by auto
        have "rbt ?T" using inv w Black bhx xl oB by (auto simp add: rbt_plug)
        moreover have "nodes ?T = nodes (plug (LF p pc w # rest) t)"
          using w xl inv by (cases a3) (auto simp add: nodes_plug)
        ultimately show ?thesis using b s' by auto
      qed
    next
      case oR: Red
      then obtain a1 a2 a3 where xr: "xr = Node a1 a2 Red a3" by (auto dest: color_red_Node)
      let ?T = "plug rest (Node (Node t p Black xl) xa pc (Node a1 a2 Black a3))"
      from erase_color_case4_L [of s p pc xl xa xc a1 a2 a3 rest t] inv(1) w xr
      obtain s' where s': "rb__erase_color_left_rest p xa s = Some (Break s')" "rep s' ?T" by auto
      have "rbt ?T" using inv w Black bhx xr by (auto simp add: rbt_plug)
      moreover have "nodes ?T = nodes (plug (LF p pc w # rest) t)"
        using w xr by (simp add: nodes_plug)
      ultimately show ?thesis using b s' by auto
    qed
  qed
qed


lemma del_step_R:
  assumes "del_inv s (RF w p pc # rest) t"
  shows "(\<exists>s' T'. rb__erase_color_body (ptr t) p s = Some (Break s') \<and> rep s' T' \<and> rbt T' \<and>
            nodes T' = nodes (plug (RF w p pc # rest) t)) \<or>
         (\<exists>s' t'. rb__erase_color_body (ptr t) p s = Some (Continue (ptr t') (cpar 0 rest) s') \<and>
            del_inv s' rest t' \<and> nodes (plug rest t') = nodes (plug (RF w p pc # rest) t))"
proof -
  from assms have inv: "rep s (plug (RF w p pc # rest) t)" "color_of t = Black" "invc t" "invh t"
    "bh w = Suc (bh t)" "invh w" "invhc (if pc = Black then Suc (Suc (bh t)) else Suc (bh t)) rest"
    "pc = Red \<longrightarrow> color_of w = Black" "invc w" "invcc pc rest" "ccol rest pc = Black"
    by (simp_all add: del_inv_def)
  from inv(5) obtain xl xa xc xr where w: "w = Node xl xa xc xr" by (auto dest: bh_pos_Node)
  note r0 = inv(1) [unfolded w]
  note body = erase_color_body_R [OF r0]
  show ?thesis
  proof (cases xc)
    case Red
    have pc: "pc = Black" using inv(8) w Red by (cases pc) auto
    have "bh xr = Suc (bh t)" "color_of xr = Black" using inv w Red by auto
    then obtain xrl xra xrr where xr: "xr = Node xrl xra Black xrr" by (cases xr) auto
    from erase_color_case1_R [OF r0 [unfolded xr]]
    obtain s1 where s1: "rb__erase_color_right_case1 p xa s = Some (xra, s1)"
      "rep s1 (plug (RF (Node xrl xra Black xrr) p Red # RF xl xa pc # rest) t)" by auto
    have b: "rb__erase_color_body (ptr t) p s = rb__erase_color_right_rest p xra s1"
      using body Red s1 by simp
    show ?thesis
    proof (cases "color_of xrl")
      case oB: Black
      show ?thesis
      proof (cases "color_of xrr")
        case iB: Black
        let ?T = "plug (RF xl xa pc # rest) (Node (Node xrl xra Red xrr) p Black t)"
        from erase_color_case2_R [OF s1(2) oB iB]
        obtain s' where s': "rb__erase_color_right_rest p xra s1 = Some (Break s')" "rep s' ?T" by auto
        have "rbt ?T" using inv w Red pc xr oB iB by (auto simp add: rbt_plug)
        moreover have "nodes ?T = nodes (plug (RF w p pc # rest) t)"
          using w xr by (simp add: nodes_plug)
        ultimately show ?thesis using b s' by auto
      next
        case iR: Red
        then obtain a1 a2 a3 where xrr: "xrr = Node a1 a2 Red a3" by (auto dest: color_red_Node)
        let ?T = "plug (RF xl xa pc # rest) (Node (Node xrl xra Black (paint Black a1)) a2 Red (Node a3 p Black t))"
        from erase_color_case34_R [OF s1(2) [unfolded xrr] oB]
        obtain s' where s': "rb__erase_color_right_rest p xra s1 = Some (Break s')" "rep s' ?T" by auto
        have "rbt ?T" using inv w Red pc xr xrr oB by (auto simp add: rbt_plug)
        moreover have "nodes ?T = nodes (plug (RF w p pc # rest) t)"
          using w xr xrr inv by (cases a1) (auto simp add: nodes_plug)
        ultimately show ?thesis using b s' by auto
      qed
    next
      case oR: Red
      then obtain a1 a2 a3 where xrl: "xrl = Node a1 a2 Red a3" by (auto dest: color_red_Node)
      let ?T = "plug (RF xl xa pc # rest) (Node (Node a1 a2 Black a3) xra Red (Node xrr p Black t))"
      from erase_color_case4_R [OF s1(2) [unfolded xrl]]
      obtain s' where s': "rb__erase_color_right_rest p xra s1 = Some (Break s')" "rep s' ?T" by auto
      have "rbt ?T" using inv w Red pc xr xrl by (auto simp add: rbt_plug)
      moreover have "nodes ?T = nodes (plug (RF w p pc # rest) t)"
        using w xr xrl by (simp add: nodes_plug)
      ultimately show ?thesis using b s' by auto
    qed
  next
    case Black
    have b: "rb__erase_color_body (ptr t) p s = rb__erase_color_right_rest p xa s"
      using body Black by simp
    have bhx: "bh xl = bh t" "bh xr = bh t" "invh xl" "invh xr" "invc xl" "invc xr"
      using inv w Black by auto
    show ?thesis
    proof (cases "color_of xl")
      case oB: Black
      show ?thesis
      proof (cases "color_of xr")
        case iB: Black
        let ?t' = "Node (Node xl xa Red xr) p Black t"
        from erase_color_case2_R [OF r0 oB iB]
        obtain s' where s': "rb__erase_color_right_rest p xa s =
            Some (if pc = Red \<or> rest = [] then Break s' else Continue p (cpar 0 rest) s')"
          "rep s' (plug rest ?t')" by auto
        have n: "nodes (plug rest ?t') = nodes (plug (RF w p pc # rest) t)"
          using w by (simp add: nodes_plug)
        show ?thesis
        proof (cases "pc = Red \<or> rest = []")
          case True
          have "rbt (plug rest ?t')"
            unfolding rbt_plug
            using inv w Black bhx oB iB True
            by (cases pc) (auto intro: invcc_mono ccol_red)
          then show ?thesis using b s' n True by auto
        next
          case False
          then have "del_inv s' rest ?t'"
            using inv w Black bhx oB iB s'(2) by (cases pc) (auto simp add: del_inv_def)
          moreover have "ptr ?t' = p" by simp
          ultimately show ?thesis using b s' n False
            by (intro disjI2 exI [of _ s'] exI [of _ ?t']) simp
        qed
      next
        case iR: Red
        then obtain a1 a2 a3 where xr: "xr = Node a1 a2 Red a3" by (auto dest: color_red_Node)
        let ?T = "plug rest (Node (Node xl xa Black (paint Black a1)) a2 pc (Node a3 p Black t))"
        from erase_color_case34_R [OF r0 [unfolded xr] oB]
        obtain s' where s': "rb__erase_color_right_rest p xa s = Some (Break s')" "rep s' ?T" by auto
        have "rbt ?T" using inv w Black bhx xr oB by (auto simp add: rbt_plug)
        moreover have "nodes ?T = nodes (plug (RF w p pc # rest) t)"
          using w xr inv by (cases a1) (auto simp add: nodes_plug)
        ultimately show ?thesis using b s' by auto
      qed
    next
      case oR: Red
      then obtain a1 a2 a3 where xl: "xl = Node a1 a2 Red a3" by (auto dest: color_red_Node)
      let ?T = "plug rest (Node (Node a1 a2 Black a3) xa pc (Node xr p Black t))"
      from erase_color_case4_R [OF r0 [unfolded xl]]
      obtain s' where s': "rb__erase_color_right_rest p xa s = Some (Break s')" "rep s' ?T" by auto
      have "rbt ?T" using inv w Black bhx xl by (auto simp add: rbt_plug)
      moreover have "nodes ?T = nodes (plug (RF w p pc # rest) t)"
        using w xl by (simp add: nodes_plug)
      ultimately show ?thesis using b s' by auto
    qed
  qed
qed

lemma del_step:
  assumes "del_inv s ctx t"
  shows "(\<exists>s' T'. rb__erase_color_body (ptr t) (cpar 0 ctx) s = Some (Break s') \<and> rep s' T' \<and> rbt T' \<and>
            nodes T' = nodes (plug ctx t)) \<or>
         (\<exists>s' ctx' t'. rb__erase_color_body (ptr t) (cpar 0 ctx) s = Some (Continue (ptr t') (cpar 0 ctx') s') \<and>
            del_inv s' ctx' t' \<and> length ctx' < length ctx \<and>
            nodes (plug ctx' t') = nodes (plug ctx t))"
proof -
  from assms obtain f rest where ctx: "ctx = f # rest" by (cases ctx) (auto simp add: del_inv_def)
  show ?thesis
  proof (cases f)
    case (LF p pc w)
    from del_step_L [OF assms [unfolded ctx LF]] show ?thesis
    proof (elim disjE exE conjE)
      fix s' T'
      assume "rb__erase_color_body (ptr t) p s = Some (Break s')" "rep s' T'" "rbt T'"
        "nodes T' = nodes (plug (LF p pc w # rest) t)"
      then show ?thesis unfolding ctx LF by auto
    next
      fix s' t'
      assume "rb__erase_color_body (ptr t) p s = Some (Continue (ptr t') (cpar 0 rest) s')"
        "del_inv s' rest t'" "nodes (plug rest t') = nodes (plug (LF p pc w # rest) t)"
      then show ?thesis unfolding ctx LF
        by (intro disjI2 exI [of _ s'] exI [of _ rest] exI [of _ t']) simp
    qed
  next
    case (RF w p pc)
    from del_step_R [OF assms [unfolded ctx RF]] show ?thesis
    proof (elim disjE exE conjE)
      fix s' T'
      assume "rb__erase_color_body (ptr t) p s = Some (Break s')" "rep s' T'" "rbt T'"
        "nodes T' = nodes (plug (RF w p pc # rest) t)"
      then show ?thesis unfolding ctx RF by auto
    next
      fix s' t'
      assume "rb__erase_color_body (ptr t) p s = Some (Continue (ptr t') (cpar 0 rest) s')"
        "del_inv s' rest t'" "nodes (plug rest t') = nodes (plug (RF w p pc # rest) t)"
      then show ?thesis unfolding ctx RF
        by (intro disjI2 exI [of _ s'] exI [of _ rest] exI [of _ t']) simp
    qed
  qed
qed

lemma erase_loop_break:
  "rb__erase_color_body n p s = Some (Break s') \<Longrightarrow> rb__erase_color_loop n p s = Some s'"
  by (subst rb__erase_color_loop.simps) simp

lemma erase_loop_continue:
  "rb__erase_color_body n p s = Some (Continue n' p' s') \<Longrightarrow>
   rb__erase_color_loop n p s = rb__erase_color_loop n' p' s'"
  by (subst rb__erase_color_loop.simps) simp

lemma erase_color_loop_ok:
  "del_inv s ctx t \<Longrightarrow>
   \<exists>s' T'. rb__erase_color_loop (ptr t) (cpar 0 ctx) s = Some s' \<and> rep s' T' \<and> rbt T' \<and>
      nodes T' = nodes (plug ctx t)"
proof (induction "length ctx" arbitrary: ctx t s rule: less_induct)
  case less
  from del_step [OF less.prems] show ?case
  proof (elim disjE exE conjE)
    fix s' T'
    assume "rb__erase_color_body (ptr t) (cpar 0 ctx) s = Some (Break s')" "rep s' T'" "rbt T'"
      "nodes T' = nodes (plug ctx t)"
    then show ?thesis by (auto simp add: erase_loop_break)
  next
    fix s' ctx' t'
    assume a: "rb__erase_color_body (ptr t) (cpar 0 ctx) s = Some (Continue (ptr t') (cpar 0 ctx') s')"
      "del_inv s' ctx' t'" "length ctx' < length ctx" "nodes (plug ctx' t') = nodes (plug ctx t)"
    from less.hyps [OF a(3) a(2)] a(1,4) show ?thesis by (auto simp add: erase_loop_continue)
  qed
qed

section \<open>Erasure\<close>

lemma plug_append: "plug (fs @ gs) t = plug gs (plug fs t)"
  by (induction fs arbitrary: t) auto

lemma leftmost_decomp:
  "r \<noteq> Leaf \<Longrightarrow> \<exists>spine sa sc sr. list_all is_LF spine \<and> r = plug spine (Node Leaf sa sc sr)"
proof (induction r)
  case Leaf
  then show ?case by simp
next
  case (Node rl a c rr)
  show ?case
  proof (cases "rl = Leaf")
    case True
    then have "list_all is_LF [] \<and> Node rl a c rr = plug [] (Node Leaf a c rr)" by simp
    then show ?thesis by blast
  next
    case False
    from Node.IH(1) [OF False] obtain spine sa sc sr where
      sp: "list_all is_LF spine" "rl = plug spine (Node Leaf sa sc sr)" by blast
    then have "list_all is_LF (spine @ [LF a c rr]) \<and>
        Node rl a c rr = plug (spine @ [LF a c rr]) (Node Leaf sa sc sr)"
      by (simp add: plug_append)
    then show ?thesis by blast
  qed
qed

lemma split_min_plug:
  "list_all is_LF spine \<Longrightarrow> split_min (plug spine (Node Leaf sa sc sr)) = (sa, sc, sr)"
proof (induction spine rule: rev_induct)
  case Nil
  then show ?case by simp
next
  case (snoc f fs)
  then obtain a c r where f: "f = LF a c r" by (cases f) auto
  have "plug fs (Node Leaf sa sc sr) \<noteq> Leaf"
    by (cases fs rule: rev_cases) (auto simp add: plug_append elim: fill.elims)
  then show ?case using snoc f by (simp add: plug_append)
qed

lemma erase_two_children:
  assumes "rep s (plug ctx (Node (Node ll la lc lr) n c (plug spine (Node Leaf sa sc sr))))"
    "list_all is_LF spine"
  shows "\<exists>s'. rb__erase n s = Some (if sr = Leaf \<and> sc = Black then cpar sa spine else 0, s') \<and>
     rep s' (plug ctx (Node (Node ll la lc lr) sa c (plug spine (paint Black sr))))"
proof (cases spine)
  case Nil
  then show ?thesis using erase_succ_child [of s ctx ll la lc lr n c sa sc sr] assms by auto
next
  case (Cons f fs)
  then obtain pa pc pr where f: "f = LF pa pc pr" using assms(2) by (cases f) auto
  show ?thesis
  proof (cases fs rule: rev_cases)
    case Nil
    then show ?thesis
      using erase_succ_deep1 [of s ctx ll la lc lr n c sa sc sr pa pc pr] assms Cons f by auto
  next
    case (snoc mid g)
    then obtain ra rc rr where g: "g = LF ra rc rr" using assms(2) Cons by (cases g) auto
    have "list_all is_LF mid" using assms(2) Cons snoc by simp
    from erase_succ_deep2 [OF assms(1) [unfolded Cons f snoc g] this]
    show ?thesis unfolding Cons f snoc g by auto
  qed
qed


lemma invhc_rename: "invhc k (fs @ RF l a c # gs) = invhc k (fs @ RF l a' c # gs)"
proof (induction fs arbitrary: k)
  case Nil
  then show ?case by simp
next
  case (Cons f fs)
  show ?case by (cases f) (simp_all add: Cons.IH)
qed

lemma invcc_rename: "invcc hc (fs @ RF l a c # gs) = invcc hc (fs @ RF l a' c # gs)"
proof (induction fs arbitrary: hc)
  case Nil
  then show ?case by simp
next
  case (Cons f fs)
  show ?case by (cases f) (simp_all add: Cons.IH)
qed

lemma ccol_rename: "ccol (fs @ RF l a c # gs) x = ccol (fs @ RF l a' c # gs) x"
  by (induction fs arbitrary: x) auto

lemma cpre_LF: "list_all is_LF spine \<Longrightarrow> cpre spine = []"
  by (induction spine rule: cpre.induct) auto

lemma nodes_paint [simp]: "nodes (paint c t) = nodes t"
  by (cases t) auto

lemma bh0_black_Leaf: "bh t = 0 \<Longrightarrow> color_of t = Black \<Longrightarrow> t = Leaf"
  by (cases t) auto

lemma bh0_red: "bh t = 0 \<Longrightarrow> invc t \<Longrightarrow> invh t \<Longrightarrow> t \<noteq> Leaf \<Longrightarrow>
    \<exists>a. t = Node Leaf a Red Leaf"
  by (cases t) (auto dest: bh0_black_Leaf split: if_splits)

lemma unlink_ok:
  assumes "rep s (plug ctx (Node l n c r))" "rbt (plug ctx (Node l n c r))"
  shows "\<exists>reb s1. rb__erase n s = Some (reb, s1) \<and>
      (reb \<noteq> 0) = (removed_color (Node l n c r) = Black \<and> replacement (Node l n c r) = Leaf \<and>
                    \<not> (ctx = [] \<and> l = Leaf \<and> r = Leaf)) \<and>
      (if reb = 0
       then \<exists>T'. rep s1 T' \<and> rbt T' \<and> nodes T' = cpre ctx @ nodes l @ nodes r @ cpost ctx
       else \<exists>ctx'. reb = cpar 0 ctx' \<and> del_inv s1 ctx' Leaf \<and>
              nodes (plug ctx' Leaf) = cpre ctx @ nodes l @ nodes r @ cpost ctx)"
proof -
  from assms(2) have inv: "ccol ctx c = Black" "invc (Node l n c r)" "invcc c ctx"
    "invh (Node l n c r)" "invhc (bh (Node l n c r)) ctx"
    by (simp_all add: rbt_plug)
  show ?thesis
  proof (cases l)
    case lLeaf: Leaf
    show ?thesis
    proof (cases r)
      case rLeaf: Leaf
      from erase_leaf [OF assms(1) [unfolded lLeaf rLeaf]]
      obtain s1 where s1: "rb__erase n s = Some (if c = Black then cpar 0 ctx else 0, s1)"
        "rep s1 (plug ctx Leaf)" by blast
      show ?thesis
      proof (cases "c = Black \<and> ctx \<noteq> []")
        case True
        then have nz: "cpar 0 ctx \<noteq> 0" using cpar_nz [OF s1(2)] by simp
        have "del_inv s1 ctx Leaf"
          using True s1(2) inv lLeaf rLeaf by (simp add: del_inv_def)
        then have "\<exists>ctx'. cpar 0 ctx = cpar 0 ctx' \<and> del_inv s1 ctx' Leaf \<and>
              nodes (plug ctx' Leaf) = cpre ctx @ nodes l @ nodes r @ cpost ctx"
          using lLeaf rLeaf by (intro exI [of _ ctx]) (simp add: nodes_plug)
        then show ?thesis
          using s1(1) True nz lLeaf rLeaf
          by (intro exI [of _ "cpar 0 ctx"] exI [of _ s1]) simp
      next
        case False
        have "rbt (plug ctx Leaf)"
          unfolding rbt_plug using False inv lLeaf rLeaf
          by (cases c; cases "ctx = []") (auto intro: invcc_mono ccol_red)
        moreover have "(if c = Black then cpar 0 ctx else 0) = 0"
          using False by (cases c) auto
        ultimately show ?thesis
          using s1 False lLeaf rLeaf
          by (intro exI [of _ 0] exI [of _ s1]) (auto simp add: nodes_plug)
      qed
    next
      case rNode: (Node rl ra rc rr)
      from erase_right_only [OF assms(1) [unfolded lLeaf rNode]]
      obtain s1 where s1: "rb__erase n s = Some (0, s1)" "rep s1 (plug ctx (Node rl ra c rr))"
        by blast
      have shape: "rc = Red" "rl = Leaf" "rr = Leaf" "c = Black"
        using inv lLeaf rNode by (auto dest: bh0_black_Leaf split: if_splits)
      have "rbt (plug ctx (Node rl ra c rr))"
        unfolding rbt_plug using inv lLeaf rNode shape by auto
      then show ?thesis
        using s1 lLeaf rNode shape
        by (intro exI [of _ 0] exI [of _ s1]) (auto simp add: nodes_plug)
    qed
  next
    case lNode: (Node ll la lc lr)
    show ?thesis
    proof (cases r)
      case rLeaf: Leaf
      from erase_left_only [OF assms(1) [unfolded lNode rLeaf]]
      obtain s1 where s1: "rb__erase n s = Some (0, s1)" "rep s1 (plug ctx (Node ll la c lr))"
        by blast
      have shape: "lc = Red" "ll = Leaf" "lr = Leaf" "c = Black"
        using inv lNode rLeaf by (auto dest: bh0_black_Leaf split: if_splits)
      have "rbt (plug ctx (Node ll la c lr))"
        unfolding rbt_plug using inv lNode rLeaf shape by auto
      then show ?thesis
        using s1 lNode rLeaf shape
        by (intro exI [of _ 0] exI [of _ s1]) (auto simp add: nodes_plug)
    next
      case rNode: (Node rl ra rc rr)
      then obtain spine sa sc sr where sp: "list_all is_LF spine" "r = plug spine (Node Leaf sa sc sr)"
        using leftmost_decomp [of r] by auto
      let ?S = "Node Leaf sa sc sr"
      let ?cS = "spine @ RF l n c # ctx"
      let ?cS' = "spine @ RF l sa c # ctx"
      have T: "plug ctx (Node l n c r) = plug ?cS ?S"
        using sp by (simp add: plug_append)
      from assms(2) [unfolded T] have invS: "ccol ?cS sc = Black" "invc ?S" "invcc sc ?cS"
        "invh ?S" "invhc (bh ?S) ?cS"
        by (simp_all add: rbt_plug)
      have sm: "split_min r = (sa, sc, sr)" using sp by (simp add: split_min_plug)
      from erase_two_children [OF assms(1) [unfolded lNode sp(2)] sp(1)]
      obtain s1 where s1: "rb__erase n s = Some (if sr = Leaf \<and> sc = Black then cpar sa spine else 0, s1)"
        "rep s1 (plug ?cS' (paint Black sr))"
        by (auto simp add: plug_append lNode)
      have nd: "nodes (plug ?cS' (paint Black sr)) = cpre ctx @ nodes l @ nodes r @ cpost ctx"
        using sp by (simp add: nodes_plug plug_append cpre_LF)
      have cp: "cpar 0 ?cS' = cpar sa spine" by (cases spine) auto
      have nz: "cpar sa spine \<noteq> 0"
        using cpar_nz [OF s1(2)] cp by simp
      show ?thesis
      proof (cases "sr = Leaf \<and> sc = Black")
        case True
        have "del_inv s1 ?cS' Leaf"
          using True s1(2) invS
          by (simp add: del_inv_def invhc_rename [where a=sa and a'=n] invcc_rename [where a=sa and a'=n]
              ccol_rename [where a=sa and a'=n])
        then have "\<exists>ctx'. cpar sa spine = cpar 0 ctx' \<and> del_inv s1 ctx' Leaf \<and>
              nodes (plug ctx' Leaf) = cpre ctx @ nodes l @ nodes r @ cpost ctx"
          using nd cp True by (intro exI [of _ ?cS']) simp
        moreover have "r \<noteq> Leaf" "l \<noteq> Leaf" using lNode rNode by simp_all
        ultimately show ?thesis
          using s1(1) True nz sm
          by (intro exI [of _ "cpar sa spine"] exI [of _ s1]) simp
      next
        case False
        have "rbt (plug ?cS' (paint Black sr))"
        proof (cases "sr = Leaf")
          case True
          then have "sc = Red" using False by (cases sc) auto
          then show ?thesis
            unfolding rbt_plug using True invS
            by (auto simp add: invhc_rename [where a=sa and a'=n] invcc_rename [where a=sa and a'=n]
                ccol_rename [where a=sa and a'=n] intro: invcc_mono ccol_red)
        next
          case srN: False
          have "bh sr = 0" "invc sr" "invh sr" using invS by auto
          with srN obtain a where sr: "sr = Node Leaf a Red Leaf" by (auto dest: bh0_red)
          then have "sc = Black" using invS by (cases sc) auto
          then show ?thesis
            unfolding rbt_plug using sr invS
            by (auto simp add: invhc_rename [where a=sa and a'=n] invcc_rename [where a=sa and a'=n]
                ccol_rename [where a=sa and a'=n])
        qed
        moreover have "(if sr = Leaf \<and> sc = Black then cpar sa spine else 0) = 0"
          using False by auto
        moreover have "r \<noteq> Leaf" "l \<noteq> Leaf" using lNode rNode by simp_all
        ultimately show ?thesis
          using s1 False nd sm
          by (intro exI [of _ 0] exI [of _ s1]) auto
      qed
    qed
  qed
qed

lemma example2_root_rep:
  "rep example2_state (plug [] (Node (Node Leaf 8 Red Leaf) 16 Black (Node Leaf 24 Red Leaf)))"
  by (simp add: example2_state_def rep_def RB_RED_def RB_BLACK_def)

lemma example2_root_rbt:
  "rbt (plug [] (Node (Node Leaf 8 Red Leaf) 16 Black (Node Leaf 24 Red Leaf)))"
  by (simp add: rbt_def)

lemma example4_inv: "del_inv example4_state example4_ctx Leaf"
  by (simp add: del_inv_def example4_state_def example4_ctx_def rep_def RB_RED_def RB_BLACK_def)

lemma case1_children:
  assumes "bh (Node xl xa Red xr) = Suc k" "invc (Node xl xa Red xr)" "invh (Node xl xa Red xr)"
  shows "xl \<noteq> Leaf \<and> color_of xl = Black \<and> xr \<noteq> Leaf \<and> color_of xr = Black"
  using assms by (cases xl; cases xr) auto

lemma in_tree_position:
  "n \<in> set (nodes T) \<Longrightarrow> \<exists>ctx l c r. T = plug ctx (Node l n c r)"
proof (induction T)
  case Leaf
  then show ?case by simp
next
  case (Node tl a tc tr)
  consider "n = a" | "n \<in> set (nodes tl)" | "n \<in> set (nodes tr)"
    using Node.prems by auto
  then show ?case
  proof cases
    case 1
    then have "Node tl a tc tr = plug [] (Node tl n tc tr)" by simp
    then show ?thesis by blast
  next
    case 2
    from Node.IH(1) [OF 2] obtain ctx l c r where "tl = plug ctx (Node l n c r)" by blast
    then have "Node tl a tc tr = plug (ctx @ [LF a tc tr]) (Node l n c r)"
      by (simp add: plug_append)
    then show ?thesis by blast
  next
    case 3
    from Node.IH(2) [OF 3] obtain ctx l c r where "tr = plug ctx (Node l n c r)" by blast
    then have "Node tl a tc tr = plug (ctx @ [RF tl a tc]) (Node l n c r)"
      by (simp add: plug_append)
    then show ?thesis by blast
  qed
qed

lemma example2_tree_rep:
  "rep example2_state (Node (Node Leaf 8 Red Leaf) 16 Black (Node Leaf 24 Red Leaf))"
  by (simp add: example2_state_def rep_def RB_RED_def RB_BLACK_def)

lemma example2_tree_rbt:
  "rbt (Node (Node Leaf 8 Red Leaf) 16 Black (Node Leaf 24 Red Leaf))"
  by (simp add: rbt_def)

section \<open>The claims\<close>

lemma set_parent_pack:
  assumes "p AND 3 = 0"
  shows "rb__parent (rb__color pc OR p) = p" "rb__color (rb__color pc OR p) = rb__color pc"
proof -
  show "rb__parent (rb__color pc OR p) = p"
    apply (rule bit_word_eqI)
    apply (simp only: rb__parent_def rb__color_def bit_and_iff bit_or_iff bit_not_iff bit3 bit1)
    using assms by (auto dest: al_bits)
  show "rb__color (rb__color pc OR p) = rb__color pc"
    apply (rule bit_word_eqI)
    apply (simp only: rb__parent_def rb__color_def bit_and_iff bit_or_iff bit_not_iff bit3 bit1)
    using assms by (auto dest: al_bits)
qed

lemma set_black_pack:
  "rb__parent (pc OR RB_BLACK) = rb__parent pc" "rb__color (pc OR RB_BLACK) = RB_BLACK"
proof -
  show "rb__parent (pc OR RB_BLACK) = rb__parent pc"
    apply (rule bit_word_eqI)
    apply (simp only: rb__parent_def rb__color_def RB_BLACK_def bit_and_iff bit_or_iff bit_not_iff bit3 bit1)
    by auto
  show "rb__color (pc OR RB_BLACK) = RB_BLACK"
    apply (rule bit_word_eqI)
    apply (simp only: rb__parent_def rb__color_def RB_BLACK_def bit_and_iff bit_or_iff bit_not_iff bit3 bit1)
    by auto
qed

text \<open>
  Claim C7. For a non-null node \<open>rb\<close>, a parent reference \<open>p\<close> aligned to four bytes and
  a color \<open>c\<close> that is \<open>RB_RED\<close> (0) or \<open>RB_BLACK\<close> (1): after
  \<open>rb_set_parent_color rb p c\<close> the parent read back (the packed word with its two low
  bits masked) is \<open>p\<close> and the color read back (the low bit) is \<open>c\<close>; \<open>rb_set_parent\<close>
  sets the parent to \<open>p\<close> and keeps the color; \<open>rb_set_black\<close> sets the color to black
  and keeps the parent.
\<close>

theorem packed_word_roundtrip:
  assumes "rb \<noteq> 0" and "p AND 3 = 0" and "c = RB_RED \<or> c = RB_BLACK"
  shows "(\<exists>s'. rb_set_parent_color rb p c s = Some s' \<and>
            rb_parent s' rb = Some p \<and> rb_color s' rb = Some c) \<and>
         (\<exists>s'. rb_set_parent rb p s = Some s' \<and>
            rb_parent s' rb = Some p \<and> rb_color s' rb = rb_color s rb) \<and>
         (\<exists>s'. rb_set_black rb s = Some s' \<and>
            rb_parent s' rb = rb_parent s rb \<and> rb_color s' rb = Some RB_BLACK) \<and>
         RB_RED = 0 \<and> RB_BLACK = 1"
proof -
  have 1: "\<exists>s'. rb_set_parent_color rb p c s = Some s' \<and>
            rb_parent s' rb = Some p \<and> rb_color s' rb = Some c"
    using assms by (auto simp add: prim_defs)
  have 2: "\<exists>s'. rb_set_parent rb p s = Some s' \<and>
            rb_parent s' rb = Some p \<and> rb_color s' rb = rb_color s rb"
    using assms(1,2) by (simp add: prim_defs set_parent_pack)
  have 3: "\<exists>s'. rb_set_black rb s = Some s' \<and>
            rb_parent s' rb = rb_parent s rb \<and> rb_color s' rb = Some RB_BLACK"
    using assms(1) by (simp add: prim_defs set_black_pack)
  show ?thesis using 1 2 3 by (simp add: RB_RED_def RB_BLACK_def)
qed

theorem packed_word_roundtrip_witness:
  "(8::addr) \<noteq> 0 \<and> (16::addr) AND 3 = 0 \<and> (RB_BLACK = RB_RED \<or> RB_BLACK = RB_BLACK) \<and>
   (\<exists>s'. rb_set_parent_color 8 16 RB_BLACK
       \<lparr>heap = \<lambda>_. \<lparr>rb_parent_color = 0, rb_right = 0, rb_left = 0\<rparr>, rb_node = 0\<rparr> = Some s' \<and>
       rb_parent s' 8 = Some 16 \<and> rb_color s' 8 = Some RB_BLACK)"
proof -
  have h1: "(8::addr) \<noteq> 0" by simp
  have h2: "(16::addr) AND 3 = 0" by simp
  have h3: "RB_BLACK = RB_RED \<or> RB_BLACK = RB_BLACK" by simp
  from packed_word_roundtrip [OF h1 h2 h3]
  have "\<exists>s'. rb_set_parent_color 8 16 RB_BLACK
       \<lparr>heap = \<lambda>_. \<lparr>rb_parent_color = 0, rb_right = 0, rb_left = 0\<rparr>, rb_node = 0\<rparr> = Some s' \<and>
       rb_parent s' 8 = Some 16 \<and> rb_color s' 8 = Some RB_BLACK"
    by (rule conjunct1)
  then show ?thesis using h1 h2 h3 by blast
qed

text \<open>
  Claim C1. Let the tree of the state be a red-black tree to which the node \<open>n\<close> has been
  attached as a red leaf at some position: the state holds \<open>plug ctx (Node Leaf n Red Leaf)\<close>
  (with consistent parent pointers, as \<open>rep\<close> demands), and the tree with that position
  absent, \<open>plug ctx Leaf\<close>, has a black root, no red node with a red child and equal
  black counts. Then \<open>insert_color n\<close> returns, and the state then holds a tree with all
  four invariants and the same nodes in the same in-order sequence. (Linking a new node
  at an absent position of a tree gives such a state: \<open>link_node_rep\<close>.)
\<close>

theorem insert_color_restores_invariants:
  assumes "rep s (plug ctx (Node Leaf n Red Leaf))" and "rbt (plug ctx Leaf)"
  shows "\<exists>s' T'. insert_color n s = Some s' \<and> rep s' T' \<and> rbt T' \<and>
           nodes T' = nodes (plug ctx (Node Leaf n Red Leaf))"
proof -
  have pc: "rb_red_parent s n = Some (cpar 0 ctx)"
    using assms(1) by (simp add: rep_plug prim_defs)
  have "\<exists>s' T'. rb__insert_loop (ptr (Node Leaf n Red Leaf)) (cpar 0 ctx) s = Some s' \<and> rep s' T' \<and>
          rbt T' \<and> nodes T' = nodes (plug ctx (Node Leaf n Red Leaf))"
    using assms by (intro insert_loop_ok) (simp add: ins_inv_def rbt_plug)
  then show ?thesis
    using pc by (simp add: insert_color_def rb__insert_def)
qed

theorem insert_color_restores_invariants_witness:
  "rep example_state (plug example_ctx (Node Leaf 4 Red Leaf)) \<and> rbt (plug example_ctx Leaf) \<and>
   (\<exists>s' T'. insert_color 4 example_state = Some s' \<and> rep s' T' \<and> rbt T' \<and> nodes T' = [4, 8, 16])"
  using example_rep example_rbt insert_color_restores_invariants [OF example_rep example_rbt]
  by (simp add: example_ctx_def)

text \<open>
  Claim C8. Under the precondition of C1 the loop of \<^verbatim>\<open>__rb_insert\<close> terminates:
  \<open>rb__insert\<close> returns a state. At the head of every pass that is reached, either
  the pass is a Case 1 pass, and then it ends in \<^verbatim>\<open>continue\<close> with a new current node whose
  distance to the root is strictly smaller than that of the current node, or it is not
  a Case 1 pass, and then it ends in \<^verbatim>\<open>break\<close>.
\<close>

theorem insert_fixup_terminates:
  assumes "rep s (plug ctx (Node Leaf n Red Leaf))" and "rbt (plug ctx Leaf)"
  shows "(\<exists>s'. rb__insert n s = Some s') \<and>
         (\<forall>k nk pk sk. rb__insert_heads k n s = Some (nk, pk, sk) \<longrightarrow>
            (rb__insert_case1 pk sk = Some True \<and>
             (\<exists>n' p' s'' d d'. rb__insert_body nk pk sk = Some (Continue n' p' s'') \<and>
                 rb_depth sk nk = Some d \<and> rb_depth s'' n' = Some d' \<and> d' < d)) \<or>
            (rb__insert_case1 pk sk = Some False \<and>
             (\<exists>s''. rb__insert_body nk pk sk = Some (Break s''))))"
proof -
  let ?t = "Node Leaf n Red Leaf"
  have inv: "ins_inv s ctx ?t"
    using assms by (simp add: ins_inv_def rbt_plug)
  have pc: "rb_red_parent s n = Some (cpar 0 ctx)"
    using assms(1) by (simp add: rep_plug prim_defs)
  have "\<exists>s'. rb__insert n s = Some s'"
    using insert_loop_ok [OF inv] pc by (auto simp add: rb__insert_def)
  moreover have "(rb__insert_case1 pk sk = Some True \<and>
             (\<exists>n' p' s'' d d'. rb__insert_body nk pk sk = Some (Continue n' p' s'') \<and>
                 rb_depth sk nk = Some d \<and> rb_depth s'' n' = Some d' \<and> d' < d)) \<or>
            (rb__insert_case1 pk sk = Some False \<and>
             (\<exists>s''. rb__insert_body nk pk sk = Some (Break s'')))"
    if h: "rb__insert_heads k n s = Some (nk, pk, sk)" for k nk pk sk
  proof -
    from h pc have "rb__insert_head k (ptr ?t) (cpar 0 ctx) s = Some (nk, pk, sk)"
      by (simp add: rb__insert_heads_def)
    from insert_head_inv [OF inv this] obtain ctx' t' where
      i: "ins_inv sk ctx' t'" "nk = ptr t'" "pk = cpar 0 ctx'" by auto
    from insert_step [OF i(1)] show ?thesis
    proof (elim disjE exE conjE)
      fix s' T'
      assume "rb__insert_body (ptr t') (cpar 0 ctx') sk = Some (Break s')"
      then show ?thesis using i(2,3) by (auto dest: insert_case1_Break)
    next
      fix s' ctx'' t''
      assume a: "rb__insert_body (ptr t') (cpar 0 ctx') sk = Some (Continue (ptr t'') (cpar 0 ctx'') s')"
        "ins_inv s' ctx'' t''" "length ctx'' < length ctx'"
      have "rb_depth sk (ptr t') = Some (length ctx')"
        using i(1) by (intro depth_plug) (simp_all add: ins_inv_def)
      moreover have "rb_depth s' (ptr t'') = Some (length ctx'')"
        using a(2) by (intro depth_plug) (simp_all add: ins_inv_def)
      ultimately show ?thesis
        using a i(2,3) by (auto dest: insert_case1_Continue)
    qed
  qed
  ultimately show ?thesis by blast
qed

theorem insert_fixup_terminates_witness:
  "rep example_state (plug example_ctx (Node Leaf 4 Red Leaf)) \<and> rbt (plug example_ctx Leaf) \<and>
   rb__insert_heads 0 4 example_state = Some (4, 8, example_state) \<and>
   (\<exists>s'. rb__insert 4 example_state = Some s') \<and>
   rb__insert_case1 8 example_state = Some False \<and>
   (\<exists>s''. rb__insert_body 4 8 example_state = Some (Break s''))"
proof -
  have c: "rb__insert_case1 8 example_state = Some False"
    by (simp add: rb__insert_case1_def example_state_def prim_defs)
  from insert_fixup_terminates [OF example_rep example_rbt] example_heads c
  have "(\<exists>s'. rb__insert 4 example_state = Some s') \<and>
        (\<exists>s''. rb__insert_body 4 8 example_state = Some (Break s''))"
    by fastforce
  then show ?thesis using example_rep example_rbt example_heads c by simp
qed

text \<open>
  Claim C9. Under the precondition of C1, at the head of every pass of the loop of
  \<^verbatim>\<open>__rb_insert\<close> that is reached, the current node is red (the low bit of its packed word
  is 0), so that \<open>rb_red_parent\<close>, which returns the whole packed word, returns the
  parent of the current node, which is the value of \<^verbatim>\<open>parent\<close>; and when that parent is
  present and red (the case in which the source calls \<open>rb_red_parent\<close> on it),
  \<open>rb_red_parent\<close> returns its parent as well.
\<close>

theorem insert_loop_node_red:
  assumes "rep s (plug ctx (Node Leaf n Red Leaf))" and "rbt (plug ctx Leaf)"
    and "rb__insert_heads k n s = Some (nk, pk, sk)"
  shows "rb_is_red sk nk = Some True \<and> rb_red_parent sk nk = Some pk \<and>
         rb_parent sk nk = Some pk \<and>
         (pk \<noteq> 0 \<and> rb_is_black sk pk = Some False \<longrightarrow>
            (\<exists>g. rb_red_parent sk pk = Some g \<and> rb_parent sk pk = Some g))"
proof -
  let ?t = "Node Leaf n Red Leaf"
  have inv: "ins_inv s ctx ?t"
    using assms(1,2) by (simp add: ins_inv_def rbt_plug)
  have pc: "rb_red_parent s n = Some (cpar 0 ctx)"
    using assms(1) by (simp add: rep_plug prim_defs)
  from assms(3) pc have "rb__insert_head k (ptr ?t) (cpar 0 ctx) s = Some (nk, pk, sk)"
    by (simp add: rb__insert_heads_def)
  from insert_head_inv [OF inv this] obtain ctx' t' where
    i: "ins_inv sk ctx' t'" "nk = ptr t'" "pk = cpar 0 ctx'" by auto
  then obtain l r where t': "t' = Node l nk Red r"
    by (cases t') (auto simp add: ins_inv_def)
  have r: "rep sk (plug ctx' (Node l nk Red r))" using i(1) t' by (simp add: ins_inv_def)
  have 1: "rb_is_red sk nk = Some True \<and> rb_red_parent sk nk = Some pk \<and> rb_parent sk nk = Some pk"
    using r i(3) by (simp add: rep_plug prim_defs)
  have 2: "\<exists>g. rb_red_parent sk pk = Some g \<and> rb_parent sk pk = Some g"
    if "pk \<noteq> 0" "rb_is_black sk pk = Some False"
  proof (cases ctx')
    case Nil
    then show ?thesis using that i(3) by simp
  next
    case (Cons f fs)
    then show ?thesis using that i(3) r
      by (cases f; cases "fcol f") (auto simp add: rep_plug prim_defs)
  qed
  show ?thesis using 1 2 by blast
qed

theorem insert_loop_node_red_witness:
  "rep example_state (plug example_ctx (Node Leaf 4 Red Leaf)) \<and> rbt (plug example_ctx Leaf) \<and>
   rb__insert_heads 0 4 example_state = Some (4, 8, example_state) \<and>
   (8::addr) \<noteq> 0 \<and> rb_is_black example_state 8 = Some False \<and>
   rb_is_red example_state 4 = Some True \<and> rb_red_parent example_state 4 = Some 8 \<and>
   rb_parent example_state 4 = Some 8 \<and>
   (\<exists>g. rb_red_parent example_state 8 = Some g \<and> rb_parent example_state 8 = Some g)"
proof -
  have b: "rb_is_black example_state 8 = Some False"
    by (simp add: example_state_def prim_defs rb__color_def)
  from insert_loop_node_red [OF example_rep example_rbt example_heads] b
  have "rb_is_red example_state 4 = Some True \<and> rb_red_parent example_state 4 = Some 8 \<and>
     rb_parent example_state 4 = Some 8 \<and>
     (\<exists>g. rb_red_parent example_state 8 = Some g \<and> rb_parent example_state 8 = Some g)"
    by simp
  then show ?thesis using example_rep example_rbt example_heads b by simp
qed

lemmas eval_defs = insert_key_def key8_def empty_state_def rb_link_node_def insert_color_def
  rb__insert_def rb__insert_loop.simps bst_descend.simps rb__insert_body_def prim_defs
  rb__rotate_set_parents_def rb__change_child_def RB_RED_def RB_BLACK_def rb__color_def rb__parent_def

text \<open>
  Claim C4, as the code has it. Starting from the empty tree, inserting the keys 1 to 7
  in ascending order (each by descent from the root, linking as a red leaf and
  \<open>insert_color\<close>) gives the tree whose root is 2 and black, with the black left child 1
  and the red right child 4; the children 3 and 6 of 4 are black, and 5 and 7 are the red
  children of 6. Its black-height is 2. (The root becomes 4 only when 8 is inserted.)
\<close>

theorem insert_1_to_7:
  "map_option (\<lambda>s. rep s tree7) (insert_keys key8 [8, 16, 24, 32, 40, 48, 56] empty_state) = Some True \<and>
   bh tree7 = 2 \<and> color_of tree7 = Black \<and> ptr tree7 = 16"
  by (simp add: eval_defs rep_def tree7_def)

text \<open>The claim as the spec states it fails: after the seven insertions the root is the
  node of key 2 (address 16), not the node of key 4 (address 32).\<close>

theorem insert_1_to_7_root_not_4:
  "map_option rb_node (insert_keys key8 [8, 16, 24, 32, 40, 48, 56] empty_state) = Some 16 \<and>
   key8 16 = 2 \<and> (16::addr) \<noteq> 32"
  by (simp add: eval_defs)

text \<open>
  Claim C6. Let the state hold a red-black tree in which \<open>victim\<close> is a node (at any
  position \<open>ctx\<close>, with subtrees \<open>l\<close> and \<open>r\<close> and color \<open>c\<close>; by \<open>in_tree_position\<close>
  every node of a tree stands at such a position), and let \<open>new\<close> be a
  non-null, four-byte aligned node that is not in the tree. Then \<open>replace victim new\<close>
  returns a state in which the three fields of \<open>new\<close> are those \<open>victim\<close> had, and which
  holds the same tree with \<open>new\<close> in the place of \<open>victim\<close>: the parent's child pointer (or
  the root) and the children's parent pointers lead to \<open>new\<close>, all invariants hold with no
  rebalancing, and the in-order sequence is the old one with \<open>new\<close> for \<open>victim\<close>.
\<close>

theorem replace_keeps_invariants:
  assumes "rep s (plug ctx (Node l victim c r))" and "rbt (plug ctx (Node l victim c r))"
    and "new \<noteq> 0" and "new AND 3 = 0" and "new \<notin> set (nodes (plug ctx (Node l victim c r)))"
  shows "\<exists>s'. replace victim new s = Some s' \<and> heap s' new = heap s victim \<and>
           rep s' (plug ctx (Node l new c r)) \<and> rbt (plug ctx (Node l new c r)) \<and>
           nodes (plug ctx (Node l new c r)) =
             map (\<lambda>a. if a = victim then new else a) (nodes (plug ctx (Node l victim c r)))"
proof -
  have "nin new (nodes (plug ctx (Node l victim c r)))"
    using assms(5) by (simp add: nin_def)
  from replace_rep [OF assms(1,3,4) this] obtain s' where
    s': "replace victim new s = Some s'" "heap s' new = heap s victim"
      "rep s' (plug ctx (Node l new c r))" by blast
  have "rbt (plug ctx (Node l new c r))"
    using assms(2) by (simp add: rbt_plug)
  moreover have "nodes (plug ctx (Node l new c r)) =
      map (\<lambda>a. if a = victim then new else a) (nodes (plug ctx (Node l victim c r)))"
    using assms(1) by (intro replace_nodes) (simp add: rep_def)
  ultimately show ?thesis using s' by blast
qed

theorem replace_keeps_invariants_witness:
  "rep example2_state (plug example2_ctx (Node Leaf 8 Red Leaf)) \<and>
   rbt (plug example2_ctx (Node Leaf 8 Red Leaf)) \<and>
   (32::addr) \<noteq> 0 \<and> (32::addr) AND 3 = 0 \<and>
   32 \<notin> set (nodes (plug example2_ctx (Node Leaf 8 Red Leaf))) \<and>
   (\<exists>s'. replace 8 32 example2_state = Some s' \<and> heap s' 32 = heap example2_state 8 \<and>
      rep s' (plug example2_ctx (Node Leaf 32 Red Leaf)) \<and>
      rbt (plug example2_ctx (Node Leaf 32 Red Leaf)) \<and>
      nodes (plug example2_ctx (Node Leaf 32 Red Leaf)) = [32, 16, 24])"
proof -
  have h3: "(32::addr) \<noteq> 0" by simp
  have h4: "(32::addr) AND 3 = 0" by simp
  have h5: "32 \<notin> set (nodes (plug example2_ctx (Node Leaf 8 Red Leaf)))"
    by (simp add: example2_ctx_def)
  from replace_keeps_invariants [OF example2_rep example2_rbt h3 h4 h5]
  have "\<exists>s'. replace 8 32 example2_state = Some s' \<and> heap s' 32 = heap example2_state 8 \<and>
      rep s' (plug example2_ctx (Node Leaf 32 Red Leaf)) \<and>
      rbt (plug example2_ctx (Node Leaf 32 Red Leaf)) \<and>
      nodes (plug example2_ctx (Node Leaf 32 Red Leaf)) = [32, 16, 24]"
    by (simp add: example2_ctx_def)
  then show ?thesis using example2_rep example2_rbt h3 h4 h5 by blast
qed

text \<open>
  Claim C2. Let the state hold a red-black tree \<open>T\<close> (with consistent parent pointers,
  as \<open>rep\<close> demands), and let \<open>n\<close> be a node of \<open>T\<close>. Then \<open>erase n\<close> returns a state
  that holds a tree with all four invariants whose in-order sequence is the old one with
  \<open>n\<close> deleted, and whose set of nodes is the old set without \<open>n\<close>.
\<close>

theorem erase_removes_and_restores:
  assumes "rep s T" and "rbt T" and "n \<in> set (nodes T)"
  shows "\<exists>s' T'. erase n s = Some s' \<and> rep s' T' \<and> rbt T' \<and>
           nodes T' = removeAll n (nodes T) \<and> set (nodes T') = set (nodes T) - {n}"
proof -
  from in_tree_position [OF assms(3)] obtain ctx l c r where
    T: "T = plug ctx (Node l n c r)" by blast
  let ?N = "cpre ctx @ nodes l @ nodes r @ cpost ctx"
  have d: "distinct (nodes T)" using assms(1) by (simp add: rep_def)
  then have n: "n \<notin> set ?N" unfolding T by (auto simp add: nodes_plug)
  then have r: "removeAll n (nodes T) = ?N"
    unfolding T by (simp add: nodes_plug)
  have st: "set ?N = set (nodes T) - {n}"
    using n unfolding T by (auto simp add: nodes_plug)
  from unlink_ok [OF assms(1,2) [unfolded T]] obtain reb s1 where
    u: "rb__erase n s = Some (reb, s1)"
      "if reb = 0 then \<exists>T'. rep s1 T' \<and> rbt T' \<and> nodes T' = ?N
       else \<exists>ctx'. reb = cpar 0 ctx' \<and> del_inv s1 ctx' Leaf \<and> nodes (plug ctx' Leaf) = ?N"
    by blast
  have "\<exists>s' T'. erase n s = Some s' \<and> rep s' T' \<and> rbt T' \<and> nodes T' = ?N"
  proof (cases "reb = 0")
    case True
    then show ?thesis using u by (auto simp add: erase_def)
  next
    case False
    with u(2) obtain ctx' where c: "reb = cpar 0 ctx'" "del_inv s1 ctx' Leaf"
      "nodes (plug ctx' Leaf) = ?N" by auto
    from erase_color_loop_ok [OF c(2)] c(1,3) False u(1)
    show ?thesis by (auto simp add: erase_def rb__erase_color_def)
  qed
  then obtain s' T' where "erase n s = Some s'" "rep s' T'" "rbt T'" "nodes T' = ?N" by blast
  then show ?thesis
    by (intro exI [of _ s'] exI [of _ T']) (simp only: r st simp_thms)
qed

theorem erase_removes_and_restores_witness:
  "rep example2_state (Node (Node Leaf 8 Red Leaf) 16 Black (Node Leaf 24 Red Leaf)) \<and>
   rbt (Node (Node Leaf 8 Red Leaf) 16 Black (Node Leaf 24 Red Leaf)) \<and>
   16 \<in> set (nodes (Node (Node Leaf 8 Red Leaf) 16 Black (Node Leaf 24 Red Leaf))) \<and>
   (\<exists>s' T'. erase 16 example2_state = Some s' \<and> rep s' T' \<and> rbt T' \<and> nodes T' = [8, 24] \<and>
      set (nodes T') = {8, 24})"
proof -
  have m: "16 \<in> set (nodes (Node (Node Leaf 8 Red Leaf) 16 Black (Node Leaf 24 Red Leaf)))"
    by simp
  from erase_removes_and_restores [OF example2_tree_rep example2_tree_rbt m]
  have "\<exists>s' T'. erase 16 example2_state = Some s' \<and> rep s' T' \<and> rbt T' \<and> nodes T' = [8, 24] \<and>
      set (nodes T') = {8, 24}"
    by auto
  then show ?thesis using example2_tree_rep example2_tree_rbt m by blast
qed

text \<open>
  Claim C3, as the code has it. For every erase on a valid red-black tree, the unlink
  phase \<open>rb__erase\<close> returns a rebalance pointer that is non-null exactly when the node
  spliced out of the tree (the erased node itself when it has at most one child,
  otherwise its successor) was black, no child takes its place, and it was not the only
  node of the tree; \<open>erase\<close> runs the color fixup exactly when that pointer is non-null;
  and when it is null the tree after the unlink already has all invariants. (So the
  fixup is skipped for a removed red color, as claimed, but also for a black node whose
  red child takes its place and is recolored black by the unlink itself, and for a black
  root without children.)
\<close>

theorem unlink_rebalance_signal:
  assumes "rep s (plug ctx (Node l n c r))" and "rbt (plug ctx (Node l n c r))"
  shows "\<exists>reb s1. rb__erase n s = Some (reb, s1) \<and>
           (reb \<noteq> 0) = (removed_color (Node l n c r) = Black \<and> replacement (Node l n c r) = Leaf \<and>
                         \<not> (ctx = [] \<and> l = Leaf \<and> r = Leaf)) \<and>
           erase n s = (if reb \<noteq> 0 then rb__erase_color reb s1 else Some s1) \<and>
           (reb = 0 \<longrightarrow> (\<exists>T'. rep s1 T' \<and> rbt T'))"
proof -
  from unlink_ok [OF assms] obtain reb s1 where
    u: "rb__erase n s = Some (reb, s1)"
      "(reb \<noteq> 0) = (removed_color (Node l n c r) = Black \<and> replacement (Node l n c r) = Leaf \<and>
                         \<not> (ctx = [] \<and> l = Leaf \<and> r = Leaf))"
      "if reb = 0 then \<exists>T'. rep s1 T' \<and> rbt T' \<and> nodes T' = cpre ctx @ nodes l @ nodes r @ cpost ctx
       else \<exists>ctx'. reb = cpar 0 ctx' \<and> del_inv s1 ctx' Leaf \<and>
            nodes (plug ctx' Leaf) = cpre ctx @ nodes l @ nodes r @ cpost ctx"
    by blast
  have "erase n s = (if reb \<noteq> 0 then rb__erase_color reb s1 else Some s1)"
    using u(1) by (simp add: erase_def)
  moreover have "reb = 0 \<longrightarrow> (\<exists>T'. rep s1 T' \<and> rbt T')"
    using u(3) by auto
  ultimately show ?thesis using u(1,2) by blast
qed

theorem unlink_rebalance_signal_witness:
  "rep example2_state (plug example2_ctx (Node Leaf 8 Red Leaf)) \<and>
   rbt (plug example2_ctx (Node Leaf 8 Red Leaf)) \<and>
   removed_color (Node Leaf 8 Red Leaf) = Red \<and>
   (\<exists>s1. rb__erase 8 example2_state = Some (0, s1) \<and> erase 8 example2_state = Some s1 \<and>
      (\<exists>T'. rep s1 T' \<and> rbt T'))"
proof -
  from unlink_rebalance_signal [OF example2_rep example2_rbt]
  have "\<exists>s1. rb__erase 8 example2_state = Some (0, s1) \<and> erase 8 example2_state = Some s1 \<and>
      (\<exists>T'. rep s1 T' \<and> rbt T')"
    by auto
  then show ?thesis using example2_rep example2_rbt by simp
qed

text \<open>The claim as stated fails where a black node with one (red) child is erased: in
  the tree with the black root 8 and its red right child 16, erasing 8 removes the color
  black in the spec's sense (the erased node's own color), and yet the rebalance pointer
  is null.\<close>

theorem unlink_black_without_signal:
  "rep example3_state example3_tree \<and> rbt example3_tree \<and>
   removed_color example3_tree = Black \<and>
   map_option fst (rb__erase 8 example3_state) = Some 0"
  by (simp add: example3_state_def example3_tree_def rep_def rbt_def rb__erase_def prim_defs
      rb__change_child_def RB_RED_def RB_BLACK_def rb__parent_def)

text \<open>
  Claim C5. Let \<open>n\<close> be a node with both children present, \<open>l\<close> and \<open>r\<close>. Then the right
  subtree is \<open>plug spine (Node Leaf s sc sr)\<close> for a path \<open>spine\<close> of left-child frames: \<open>s\<close>
  is its leftmost node, the in-order successor of \<open>n\<close>. The unlink phase returns a state
  that holds the tree in which \<open>s\<close> stands in the slot of \<open>n\<close> with the color \<open>c\<close> of \<open>n\<close>
  and the left subtree \<open>l\<close>, and in which \<open>sr\<close>, the former right child of \<open>s\<close>, stands in
  the former slot of \<open>s\<close> (its root painted black when it is present). When \<open>s\<close> is the
  right child of \<open>n\<close> the path is empty, and \<open>s\<close> keeps \<open>sr\<close> as its right subtree.
\<close>

theorem unlink_splices_successor:
  assumes "rep s (plug ctx (Node l n c r))" and "l \<noteq> Leaf" and "r \<noteq> Leaf"
  shows "\<exists>spine sa sc sr reb s'.
           list_all is_LF spine \<and> r = plug spine (Node Leaf sa sc sr) \<and>
           split_min r = (sa, sc, sr) \<and> sa = hd (nodes r) \<and>
           (spine = []) = (ptr r = sa) \<and>
           rb__erase n s = Some (reb, s') \<and>
           rep s' (plug ctx (Node l sa c (plug spine (paint Black sr))))"
proof -
  from assms(3) obtain spine sa sc sr where
    sp: "list_all is_LF spine" "r = plug spine (Node Leaf sa sc sr)"
    using leftmost_decomp by blast
  obtain ll la lc lr where l: "l = Node ll la lc lr" using assms(2) by (cases l) auto
  from erase_two_children [OF assms(1) [unfolded l sp(2)] sp(1)] obtain reb s' where
    e: "rb__erase n s = Some (reb, s')" "rep s' (plug ctx (Node l sa c (plug spine (paint Black sr))))"
    unfolding l by blast
  have sm: "split_min r = (sa, sc, sr)" using sp by (simp add: split_min_plug)
  have hd: "sa = hd (nodes r)" using sp by (simp add: nodes_plug cpre_LF)
  have "dst (nodes r)" using assms(1) by (simp add: rep_plug)
  then have "nin sa (cnodes spine)" using sp(2) by simp
  have "(spine = []) = (ptr r = sa)"
  proof (cases spine rule: rev_cases)
    case Nil
    then show ?thesis using sp(2) by simp
  next
    case (snoc ys y)
    then have "ptr r = faddr y" using sp(2) by (simp add: ctop_append)
    moreover have "sa \<noteq> faddr y" using \<open>nin sa (cnodes spine)\<close> snoc by (cases y) auto
    ultimately show ?thesis using snoc by simp
  qed
  then show ?thesis using sp sm hd e by blast
qed

theorem unlink_splices_successor_witness:
  "rep example2_state (plug [] (Node (Node Leaf 8 Red Leaf) 16 Black (Node Leaf 24 Red Leaf))) \<and>
   Node Leaf 8 Red Leaf \<noteq> Leaf \<and> Node Leaf 24 Red Leaf \<noteq> Leaf \<and>
   (\<exists>reb s'. rb__erase 16 example2_state = Some (reb, s') \<and>
      rep s' (Node (Node Leaf 8 Red Leaf) 24 Black Leaf))"
proof -
  have h2: "Node Leaf 8 Red Leaf \<noteq> Leaf" by simp
  have h3: "Node Leaf 24 Red Leaf \<noteq> Leaf" by simp
  from unlink_splices_successor [OF example2_root_rep h2 h3] obtain spine sa sc sr reb s' where
    a: "list_all is_LF spine" "Node Leaf 24 Red Leaf = plug spine (Node Leaf sa sc sr)"
      "split_min (Node Leaf 24 Red Leaf) = (sa, sc, sr)" "(spine = []) = (ptr (Node Leaf 24 Red Leaf) = sa)"
      "rb__erase 16 example2_state = Some (reb, s')"
      "rep s' (plug [] (Node (Node Leaf 8 Red Leaf) sa Black (plug spine (paint Black sr))))"
    by blast
  from a(3) have "sa = 24" "sr = Leaf" by simp_all
  with a(4) have "spine = []" by simp
  with a(5,6) \<open>sa = 24\<close> \<open>sr = Leaf\<close> show ?thesis using example2_root_rep by auto
qed

text \<open>
  Claim C10. Under the precondition of the color fixup (the loop invariant \<open>del_inv\<close>: the
  tree is a valid red-black tree except that the paths through the deficient child \<open>t\<close>
  have one black node less than the others), when the sibling is red, both its children
  are present and black; Case 1, which reads the sibling's inner child and writes a
  field of it with no null check, returns a state, so it never goes through null. This
  holds on both sides.
\<close>

theorem erase_color_case1_safe:
  assumes "del_inv s ctx t"
  shows "(\<forall>p pc xl xa xr rest. ctx = LF p pc (Node xl xa Red xr) # rest \<longrightarrow>
            xl \<noteq> Leaf \<and> color_of xl = Black \<and> xr \<noteq> Leaf \<and> color_of xr = Black \<and>
            ptr xl \<noteq> 0 \<and> (\<exists>s'. rb__erase_color_left_case1 p xa s = Some (ptr xl, s'))) \<and>
         (\<forall>p pc xl xa xr rest. ctx = RF (Node xl xa Red xr) p pc # rest \<longrightarrow>
            xl \<noteq> Leaf \<and> color_of xl = Black \<and> xr \<noteq> Leaf \<and> color_of xr = Black \<and>
            ptr xr \<noteq> 0 \<and> (\<exists>s'. rb__erase_color_right_case1 p xa s = Some (ptr xr, s')))"
proof (intro conjI allI impI)
  fix p pc xl xa xr rest
  assume c: "ctx = LF p pc (Node xl xa Red xr) # rest"
  from assms c have i: "rep s (plug (LF p pc (Node xl xa Red xr) # rest) t)"
    "bh (Node xl xa Red xr) = Suc (bh t)" "invc (Node xl xa Red xr)" "invh (Node xl xa Red xr)"
    by (auto simp add: del_inv_def)
  from case1_children [OF i(2,3,4)] have ch:
    "xl \<noteq> Leaf \<and> color_of xl = Black \<and> xr \<noteq> Leaf \<and> color_of xr = Black" .
  then obtain a1 a2 a3 where xl: "xl = Node a1 a2 Black a3" by (cases xl) auto
  from erase_color_case1_L [OF i(1) [unfolded xl]] i(1) xl
  have "ptr xl \<noteq> 0 \<and> (\<exists>s'. rb__erase_color_left_case1 p xa s = Some (ptr xl, s'))"
    by (auto simp add: rep_plug)
  with ch show "xl \<noteq> Leaf" "color_of xl = Black" "xr \<noteq> Leaf" "color_of xr = Black"
    "ptr xl \<noteq> 0" "\<exists>s'. rb__erase_color_left_case1 p xa s = Some (ptr xl, s')" by simp_all
next
  fix p pc xl xa xr rest
  assume c: "ctx = RF (Node xl xa Red xr) p pc # rest"
  from assms c have i: "rep s (plug (RF (Node xl xa Red xr) p pc # rest) t)"
    "bh (Node xl xa Red xr) = Suc (bh t)" "invc (Node xl xa Red xr)" "invh (Node xl xa Red xr)"
    by (auto simp add: del_inv_def)
  from case1_children [OF i(2,3,4)] have ch:
    "xl \<noteq> Leaf \<and> color_of xl = Black \<and> xr \<noteq> Leaf \<and> color_of xr = Black" .
  then obtain a1 a2 a3 where xr: "xr = Node a1 a2 Black a3" by (cases xr) auto
  from erase_color_case1_R [OF i(1) [unfolded xr]] i(1) xr
  have "ptr xr \<noteq> 0 \<and> (\<exists>s'. rb__erase_color_right_case1 p xa s = Some (ptr xr, s'))"
    by (auto simp add: rep_plug)
  with ch show "xl \<noteq> Leaf" "color_of xl = Black" "xr \<noteq> Leaf" "color_of xr = Black"
    "ptr xr \<noteq> 0" "\<exists>s'. rb__erase_color_right_case1 p xa s = Some (ptr xr, s')" by simp_all
qed

theorem erase_color_case1_safe_witness:
  "del_inv example4_state example4_ctx Leaf \<and>
   example4_ctx = LF 16 Black (Node (Node Leaf 24 Black Leaf) 32 Red (Node Leaf 40 Black Leaf)) # [] \<and>
   (\<exists>s'. rb__erase_color_left_case1 16 32 example4_state = Some (24, s'))"
proof -
  have c: "example4_ctx = LF 16 Black (Node (Node Leaf 24 Black Leaf) 32 Red (Node Leaf 40 Black Leaf)) # []"
    by (simp add: example4_ctx_def)
  from erase_color_case1_safe [OF example4_inv] c
  have "\<exists>s'. rb__erase_color_left_case1 16 32 example4_state = Some (24, s')"
    by fastforce
  then show ?thesis using example4_inv c by simp
qed

end
